theory Spec2Isabelle
  imports Main "HOL-Library.AList"
begin

section \<open>Python values\<close>

text \<open>
  A Python \<^verbatim>\<open>str\<close> is a sequence of Unicode code points, so a string is a list of
  natural numbers. \<open>lit\<close> turns an ASCII literal into such a list.
\<close>

type_synonym str = "nat list"

abbreviation (input) lit :: "string \<Rightarrow> str" where
  "lit s \<equiv> map of_char s"

text \<open>
  What \<^verbatim>\<open>json.load\<close> returns. A dict keeps its insertion order, so an object is an
  association list. Numbers carry an integer; the code never computes with a number
  read from a file.
\<close>

datatype json =
    JNull
  | JBool bool
  | JNum int
  | JStr str
  | JArr "json list"
  | JObj "(str \<times> json) list"

datatype py_error = KeyError | TypeError | AttributeError

text \<open>Truth value of an object, as \<^verbatim>\<open>if not x\<close> tests it.\<close>

fun truthy :: "json \<Rightarrow> bool" where
  "truthy JNull = False"
| "truthy (JBool b) = b"
| "truthy (JNum n) = (n \<noteq> 0)"
| "truthy (JStr s) = (s \<noteq> [])"
| "truthy (JArr xs) = (xs \<noteq> [])"
| "truthy (JObj kvs) = (kvs \<noteq> [])"

text \<open>\<^verbatim>\<open>x[k]\<close> with a string key: only a dict accepts it, and the key must be there.\<close>

fun getitem :: "json \<Rightarrow> str \<Rightarrow> py_error + json" where
  "getitem (JObj kvs) k = (case map_of kvs k of Some v \<Rightarrow> Inr v | None \<Rightarrow> Inl KeyError)"
| "getitem _ k = Inl TypeError"

text \<open>\<^verbatim>\<open>x.get(k, d)\<close>: only a dict has the method.\<close>

fun dict_get :: "json \<Rightarrow> str \<Rightarrow> json \<Rightarrow> py_error + json" where
  "dict_get (JObj kvs) k d = Inr (case map_of kvs k of Some v \<Rightarrow> v | None \<Rightarrow> d)"
| "dict_get _ k d = Inl AttributeError"

text \<open>
  \<^verbatim>\<open>for x in v\<close>: a list gives its elements, a dict its keys, a string its characters;
  nothing else of JSON can be iterated.
\<close>

fun iter :: "json \<Rightarrow> py_error + json list" where
  "iter (JArr xs) = Inr xs"
| "iter (JObj kvs) = Inr (map (\<lambda>kv. JStr (fst kv)) kvs)"
| "iter (JStr s) = Inr (map (\<lambda>c. JStr [c]) s)"
| "iter _ = Inl TypeError"

text \<open>\<^verbatim>\<open>d.setdefault(k, v)\<close> on a dict: a key that is present keeps its value.\<close>

definition setdefault :: "'k \<Rightarrow> 'v \<Rightarrow> ('k \<times> 'v) list \<Rightarrow> ('k \<times> 'v) list" where
  "setdefault k v d = (case map_of d k of Some _ \<Rightarrow> d | None \<Rightarrow> d @ [(k, v)])"

text \<open>
  The items that \<^verbatim>\<open>for x in activity[field].get(key, [])\<close> runs over (lines 45, 73
  and 83), or the exception that the expression raises.
\<close>

definition listed :: "json \<Rightarrow> str \<Rightarrow> str \<Rightarrow> py_error + json list" where
  "listed activity field key =
     (case getitem activity field of
        Inl e \<Rightarrow> Inl e
      | Inr d \<Rightarrow>
     (case dict_get d key (JArr []) of
        Inl e \<Rightarrow> Inl e
      | Inr l \<Rightarrow> iter l))"


section \<open>Text\<close>

text \<open>
  Whitespace as \<^verbatim>\<open>str.strip\<close>, \<^verbatim>\<open>str.isspace\<close> and the pattern \<^verbatim>\<open>\s\<close> see it: the
  code points U+0009..U+000D, U+001C..U+0020, U+0085, U+00A0, U+1680, U+2000..U+200A,
  U+2028, U+2029, U+202F, U+205F and U+3000.
\<close>

definition py_isspace :: "nat \<Rightarrow> bool" where
  "py_isspace c \<longleftrightarrow>
     (9 \<le> c \<and> c \<le> 13) \<or> (28 \<le> c \<and> c \<le> 32) \<or> c = 133 \<or> c = 160 \<or> c = 5760 \<or>
     (8192 \<le> c \<and> c \<le> 8202) \<or> c = 8232 \<or> c = 8233 \<or> c = 8239 \<or> c = 8287 \<or> c = 12288"

definition strip :: "str \<Rightarrow> str" where
  "strip s = rev (dropWhile py_isspace (rev (dropWhile py_isspace s)))"

text \<open>\<^verbatim>\<open>x.strip()\<close> on a value read from a file: only a string has the method.\<close>

fun str_strip :: "json \<Rightarrow> py_error + str" where
  "str_strip (JStr s) = Inr (strip s)"
| "str_strip _ = Inl AttributeError"


section \<open>Keys for classifying things\<close>

definition ROLES :: "str list" where
  "ROLES = [lit ''implementing'', lit ''programming'', lit ''funding'']"

definition SECTOR_TYPES :: "str list" where
  "SECTOR_TYPES = [lit ''dac'', lit ''humanitarian'']"

definition LOCATION_TYPES :: "str list" where
  "LOCATION_TYPES = [lit ''admin1'', lit ''admin2'', lit ''unclassified'']"


section \<open>The location index (index-locations.py)\<close>

type_synonym counter = "(str \<times> int) list"

text \<open>
  The three fields of an activity that line 65 copies into an entry (\<open>identifier\<close> is
  reserved, so the fields carry a prefix).
\<close>

record activity_ref =
  a_identifier :: json
  a_title :: json
  a_source :: json

record entry =
  activities :: "activity_ref list"
  orgs :: counter
  sectors :: "(str \<times> counter) list"

type_synonym index = "(str \<times> (str \<times> entry) list) list"

text \<open>
  \<^verbatim>\<open>c.setdefault(k, 0); c[k] += 1\<close>. The read of \<^verbatim>\<open>c[k]\<close> raises KeyError on a
  missing key, which \<open>setdefault\<close> has just excluded.
\<close>

definition increment :: "str \<Rightarrow> counter \<Rightarrow> py_error + counter" where
  "increment k c =
     (let c1 = setdefault k 0 c
      in case map_of c1 k of
           None \<Rightarrow> Inl KeyError
         | Some n \<Rightarrow> Inr (AList.update k (n + 1) c1))"

text \<open>
  The body shared by the org loop (lines 73-78) and the sector loop (lines 83-88):
  skip a falsy item, strip the others, count them.
\<close>

fun count_names :: "json list \<Rightarrow> counter \<Rightarrow> py_error + counter" where
  "count_names [] c = Inr c"
| "count_names (x # xs) c =
     (if \<not> truthy x then count_names xs c
      else case str_strip x of
             Inl e \<Rightarrow> Inl e
           | Inr name \<Rightarrow>
               (case increment name c of
                  Inl e \<Rightarrow> Inl e
                | Inr c1 \<Rightarrow> count_names xs c1))"

text \<open>Lines 72-78: \<^verbatim>\<open>for role in ROLES: for org in activity["orgs"].get(role, [])\<close>.\<close>

fun orgs_loop :: "json \<Rightarrow> str list \<Rightarrow> counter \<Rightarrow> py_error + counter" where
  "orgs_loop activity [] c = Inr c"
| "orgs_loop activity (role # roles) c =
     (case listed activity (lit ''orgs'') role of
        Inl e \<Rightarrow> Inl e
      | Inr xs \<Rightarrow>
     (case count_names xs c of
        Inl e \<Rightarrow> Inl e
      | Inr c1 \<Rightarrow> orgs_loop activity roles c1))"

text \<open>
  Lines 81-88: for each sector type, make sure the entry has a counter for it, then
  count the activity's sectors of that type.
\<close>

fun sectors_loop ::
  "json \<Rightarrow> str list \<Rightarrow> (str \<times> counter) list \<Rightarrow> py_error + (str \<times> counter) list" where
  "sectors_loop activity [] ss = Inr ss"
| "sectors_loop activity (t # ts) ss =
     (case listed activity (lit ''sectors'') t of
        Inl e \<Rightarrow> Inl e
      | Inr xs \<Rightarrow>
     (case map_of (setdefault t [] ss) t of
        None \<Rightarrow> Inl KeyError
      | Some c \<Rightarrow>
     (case count_names xs c of
        Inl e \<Rightarrow> Inl e
      | Inr c1 \<Rightarrow> sectors_loop activity ts (AList.update t c1 (setdefault t [] ss)))))"

text \<open>
  Lines 64-88: what one activity adds to the entry of one of its locations. The activity
  is appended without a check for duplicates.
\<close>

definition entry_step :: "json \<Rightarrow> entry \<Rightarrow> py_error + entry" where
  "entry_step activity en =
     (case getitem activity (lit ''identifier'') of
        Inl e \<Rightarrow> Inl e
      | Inr i \<Rightarrow>
     (case getitem activity (lit ''title'') of
        Inl e \<Rightarrow> Inl e
      | Inr t \<Rightarrow>
     (case getitem activity (lit ''source'') of
        Inl e \<Rightarrow> Inl e
      | Inr s \<Rightarrow>
     (case orgs_loop activity ROLES (orgs en) of
        Inl e \<Rightarrow> Inl e
      | Inr os \<Rightarrow>
     (case sectors_loop activity SECTOR_TYPES (sectors en) of
        Inl e \<Rightarrow> Inl e
      | Inr ss \<Rightarrow>
          Inr \<lparr>activities = activities en @ [\<lparr>a_identifier = i, a_title = t, a_source = s\<rparr>],
               orgs = os, sectors = ss\<rparr>)))))"

text \<open>
  Lines 47-88, the body of the loop over the raw locations of one type: \<open>m\<close> is
  \<^verbatim>\<open>index[loctype]\<close>, returned updated. Only a falsy location is skipped; the test
  comes before the strip.
\<close>

definition location_step ::
  "json \<Rightarrow> json \<Rightarrow> (str \<times> entry) list \<Rightarrow> py_error + (str \<times> entry) list" where
  "location_step activity location m =
     (if \<not> truthy location then Inr m
      else case str_strip location of
        Inl e \<Rightarrow> Inl e
      | Inr loc \<Rightarrow>
     (case map_of (setdefault loc \<lparr>activities = [], orgs = [], sectors = []\<rparr> m) loc of
        None \<Rightarrow> Inl KeyError
      | Some en \<Rightarrow>
     (case entry_step activity en of
        Inl e \<Rightarrow> Inl e
      | Inr en1 \<Rightarrow>
          Inr (AList.update loc en1
                 (setdefault loc \<lparr>activities = [], orgs = [], sectors = []\<rparr> m)))))"

text \<open>Line 45: the loop over the raw locations of one type.\<close>

fun locations_loop ::
  "json \<Rightarrow> json list \<Rightarrow> (str \<times> entry) list \<Rightarrow> py_error + (str \<times> entry) list" where
  "locations_loop activity [] m = Inr m"
| "locations_loop activity (location # rest) m =
     (case location_step activity location m of
        Inl e \<Rightarrow> Inl e
      | Inr m1 \<Rightarrow> locations_loop activity rest m1)"

text \<open>
  Lines 37-45: the loop over the location types, for one activity. The type's key is
  added to the index here, inside the loop over the activities.
\<close>

fun loctype_loop :: "json \<Rightarrow> str list \<Rightarrow> index \<Rightarrow> py_error + index" where
  "loctype_loop activity [] idx = Inr idx"
| "loctype_loop activity (loctype # rest) idx =
     (case listed activity (lit ''locations'') loctype of
        Inl e \<Rightarrow> Inl e
      | Inr locations \<Rightarrow>
     (case map_of (setdefault loctype [] idx) loctype of
        None \<Rightarrow> Inl KeyError
      | Some m \<Rightarrow>
     (case locations_loop activity locations m of
        Inl e \<Rightarrow> Inl e
      | Inr m1 \<Rightarrow>
          loctype_loop activity rest (AList.update loctype m1 (setdefault loctype [] idx)))))"

text \<open>Line 32: the loop over the activities.\<close>

fun activities_loop :: "json list \<Rightarrow> index \<Rightarrow> py_error + index" where
  "activities_loop [] idx = Inr idx"
| "activities_loop (activity # rest) idx =
     (case loctype_loop activity LOCATION_TYPES idx of
        Inl e \<Rightarrow> Inl e
      | Inr idx1 \<Rightarrow> activities_loop rest idx1)"

text \<open>
  The script from the parsed activity file to the index it prints; an exception leaves
  the script before anything is printed.
\<close>

definition build_index :: "json \<Rightarrow> py_error + index" where
  "build_index file =
     (case iter file of
        Inl e \<Rightarrow> Inl e
      | Inr acts \<Rightarrow> activities_loop acts [])"

section \<open>Reading the index and the activities\<close>

text \<open>
  The value of a counter at a key, 0 when the key is absent.
\<close>

definition count_of :: "counter \<Rightarrow> str \<Rightarrow> int" where
  "count_of c k = (case map_of c k of None \<Rightarrow> 0 | Some n \<Rightarrow> n)"

text \<open>
  How many items of a list the counting loops count under \<open>name\<close>: the truthy
  ones whose strip is \<open>name\<close>.
\<close>

definition occurrences :: "json list \<Rightarrow> str \<Rightarrow> nat" where
  "occurrences xs name = length (filter (\<lambda>x. truthy x \<and> str_strip x = Inr name) xs)"

text \<open>
  How many raw locations of one type an activity lists that strip to \<open>loc\<close>, and
  how many raw org names, over all roles, that strip to \<open>name\<close>.
\<close>

definition loc_occ :: "json \<Rightarrow> str \<Rightarrow> str \<Rightarrow> nat" where
  "loc_occ activity loctype loc =
     (case listed activity (lit ''locations'') loctype of
        Inl e \<Rightarrow> 0
      | Inr xs \<Rightarrow> occurrences xs loc)"

definition org_occ :: "json \<Rightarrow> str \<Rightarrow> nat" where
  "org_occ activity name =
     sum_list (map (\<lambda>role. case listed activity (lit ''orgs'') role of
                              Inl e \<Rightarrow> 0
                            | Inr xs \<Rightarrow> occurrences xs name) ROLES)"

text \<open>
  Projections of the index: the entries of a location type, and the org counter, the
  activity list and one org count of an entry; empty where the key is absent.
\<close>

definition entries_at :: "index \<Rightarrow> str \<Rightarrow> (str \<times> entry) list" where
  "entries_at idx loctype = (case map_of idx loctype of None \<Rightarrow> [] | Some m \<Rightarrow> m)"

definition orgs_at :: "(str \<times> entry) list \<Rightarrow> str \<Rightarrow> counter" where
  "orgs_at m loc = (case map_of m loc of None \<Rightarrow> [] | Some en \<Rightarrow> orgs en)"

definition activities_at :: "(str \<times> entry) list \<Rightarrow> str \<Rightarrow> activity_ref list" where
  "activities_at m loc = (case map_of m loc of None \<Rightarrow> [] | Some en \<Rightarrow> activities en)"

definition org_counter :: "index \<Rightarrow> str \<Rightarrow> str \<Rightarrow> str \<Rightarrow> int option" where
  "org_counter idx loctype loc name = map_of (orgs_at (entries_at idx loctype) loc) name"

text \<open>
  \<open>bumped c c' name n\<close>: counter \<open>c'\<close> is \<open>c\<close> after \<open>n\<close> increments of \<open>name\<close>;
  without an increment the key is as it was, absent or present.
\<close>

definition bumped :: "counter \<Rightarrow> counter \<Rightarrow> str \<Rightarrow> nat \<Rightarrow> bool" where
  "bumped c c' name n \<longleftrightarrow>
     map_of c' name = (if n = 0 then map_of c name else Some (count_of c name + int n))"

text \<open>
  \<open>r\<close> is the record that line 65 appends for the activity.
\<close>

definition ref_of :: "json \<Rightarrow> activity_ref \<Rightarrow> bool" where
  "ref_of activity r \<longleftrightarrow>
     getitem activity (lit ''identifier'') = Inr (a_identifier r) \<and>
     getitem activity (lit ''title'') = Inr (a_title r) \<and>
     getitem activity (lit ''source'') = Inr (a_source r)"

text \<open>
  Every entry of a location type has a counter for every sector type.
\<close>

definition typed_entries :: "(str \<times> entry) list \<Rightarrow> bool" where
  "typed_entries m \<longleftrightarrow> (\<forall>loc en. map_of m loc = Some en \<longrightarrow> set SECTOR_TYPES \<subseteq> dom (map_of (sectors en)))"

subsection \<open>Example data\<close>

text \<open>
  An activity with the given raw \<^verbatim>\<open>admin1\<close> locations and \<^verbatim>\<open>implementing\<close> orgs and no
  sectors, the record kept of it, and an index with one \<^verbatim>\<open>admin1\<close> location.
\<close>

definition example_activity :: "json list \<Rightarrow> json list \<Rightarrow> json" where
  "example_activity locations organisations =
     JObj [(lit ''identifier'', JStr (lit ''XM-1'')),
           (lit ''title'', JStr (lit ''Title'')),
           (lit ''source'', JStr (lit ''IATI'')),
           (lit ''locations'', JObj [(lit ''admin1'', JArr locations)]),
           (lit ''orgs'', JObj [(lit ''implementing'', JArr organisations)]),
           (lit ''sectors'', JObj [])]"

definition example_ref :: activity_ref where
  "example_ref = \<lparr>a_identifier = JStr (lit ''XM-1''), a_title = JStr (lit ''Title''),
                   a_source = JStr (lit ''IATI'')\<rparr>"

definition example_index :: "str \<Rightarrow> activity_ref list \<Rightarrow> counter \<Rightarrow> index" where
  "example_index loc refs os =
     [(lit ''admin1'', [(loc, \<lparr>activities = refs, orgs = os,
                             sectors = [(lit ''dac'', []), (lit ''humanitarian'', [])]\<rparr>)]),
      (lit ''admin2'', []),
      (lit ''unclassified'', [])]"


section \<open>Common functions (iati3w\_common.py)\<close>

subsection \<open>Characters\<close>

text \<open>
  The pattern \<^verbatim>\<open>\w\<close> and \<^verbatim>\<open>str.lower\<close> read Python's Unicode tables, which are not part of
  the repository, so the functions that tokenize take the tables as an argument. \<^verbatim>\<open>\w\<close>
  matches the characters that the table of word characters holds. \<^verbatim>\<open>str.lower\<close> replaces
  each character of a string by its lowercase form, which is one code point or more and
  for one character (the capital sigma) depends on its neighbours: \<open>lower_form\<close> gives
  the form of a character from the characters before it, the character and the characters
  after it.
\<close>

record tables =
  isword :: "nat \<Rightarrow> bool"
  lower_form :: "str \<Rightarrow> nat \<Rightarrow> str \<Rightarrow> str"

fun lower_from :: "tables \<Rightarrow> str \<Rightarrow> str \<Rightarrow> str" where
  "lower_from U before [] = []"
| "lower_from U before (c # cs) = lower_form U before c cs @ lower_from U (before @ [c]) cs"

definition py_lower :: "tables \<Rightarrow> str \<Rightarrow> str" where
  "py_lower U s = lower_from U [] s"

text \<open>
  \<^verbatim>\<open>re.sub(p + '+', ' ', s)\<close> for a character class \<open>p\<close>: every maximal run of characters
  of the class becomes one space.
\<close>

function sub_runs :: "(nat \<Rightarrow> bool) \<Rightarrow> str \<Rightarrow> str" where
  "sub_runs p [] = []"
| "sub_runs p (c # cs) =
     (if p c then 32 # sub_runs p (dropWhile p cs) else c # sub_runs p cs)"
  by pat_completeness auto
termination
  by (relation "measure (\<lambda>(p, s). length s)") (auto simp: length_dropWhile_le less_Suc_eq_le)

subsection \<open>Utility functions\<close>

text \<open>Lines 42-50. The argument may be \<^verbatim>\<open>None\<close>; a falsy argument gives \<^verbatim>\<open>None\<close>.\<close>

definition normalise_string :: "str option \<Rightarrow> str option" where
  "normalise_string s =
     (case s of
        None \<Rightarrow> None
      | Some x \<Rightarrow> if x = [] then None else Some (sub_runs py_isspace (strip x)))"

text \<open>Lines 52-57.\<close>

definition make_token :: "tables \<Rightarrow> str \<Rightarrow> str" where
  "make_token U s = strip (py_lower U (sub_runs (\<lambda>c. \<not> isword U c) s))"

text \<open>
  Modelled from the spec: \<^verbatim>\<open>is_empty\<close> is imported from the library \<^verbatim>\<open>hxl.datatypes\<close>,
  which is not part of the repository. The spec's empty-detection predicate holds of null,
  of the empty string and of a whitespace-only string.
\<close>

definition is_empty :: "str option \<Rightarrow> bool" where
  "is_empty v =
     (case v of
        None \<Rightarrow> True
      | Some s \<Rightarrow> s = [] \<or> (s \<noteq> [] \<and> list_all py_isspace s))"

text \<open>No two spaces in a row.\<close>

fun single_spaces :: "str \<Rightarrow> bool" where
  "single_spaces (a # b # cs) = (\<not> (a = 32 \<and> b = 32) \<and> single_spaces (b # cs))"
| "single_spaces _ = True"


subsection \<open>Operations on values read from a file\<close>

text \<open>\<^verbatim>\<open>x[k] = v\<close>: only a dict accepts it; a key that is present keeps its place.\<close>

fun setitem :: "json \<Rightarrow> str \<Rightarrow> json \<Rightarrow> py_error + json" where
  "setitem (JObj kvs) k v = Inr (JObj (AList.update k v kvs))"
| "setitem _ k v = Inl TypeError"

text \<open>\<^verbatim>\<open>x.items()\<close>: only a dict has the method.\<close>

fun items :: "json \<Rightarrow> py_error + (str \<times> json) list" where
  "items (JObj kvs) = Inr kvs"
| "items _ = Inl AttributeError"

text \<open>
  \<^verbatim>\<open>k in x\<close> for a string \<open>k\<close>: a key of a dict, an element of a list, a substring of
  a string.
\<close>

fun is_substring :: "str \<Rightarrow> str \<Rightarrow> bool" where
  "is_substring k [] = (k = [])"
| "is_substring k (c # cs) = (take (length k) (c # cs) = k \<or> is_substring k cs)"

fun contains :: "json \<Rightarrow> str \<Rightarrow> py_error + bool" where
  "contains (JObj kvs) k = Inr (map_of kvs k \<noteq> None)"
| "contains (JArr xs) k = Inr (JStr k \<in> set xs)"
| "contains (JStr s) k = Inr (is_substring k s)"
| "contains _ k = Inl TypeError"

text \<open>\<^verbatim>\<open>make_token(x)\<close> on a value read from a file: \<^verbatim>\<open>re.sub\<close> wants a string.\<close>

fun token_of :: "tables \<Rightarrow> json \<Rightarrow> py_error + str" where
  "token_of U (JStr s) = Inr (make_token U s)"
| "token_of U _ = Inl TypeError"

text \<open>What \<^verbatim>\<open>for name in info.get("synonyms", [])\<close> runs over.\<close>

definition synonyms_of :: "json \<Rightarrow> py_error + json list" where
  "synonyms_of info =
     (case dict_get info (lit ''synonyms'') (JArr []) of
        Inl e \<Rightarrow> Inl e
      | Inr v \<Rightarrow> iter v)"

text \<open>What \<^verbatim>\<open>for name, child in info.get(key, {}).items()\<close> runs over.\<close>

definition children :: "json \<Rightarrow> str \<Rightarrow> py_error + (str \<times> json) list" where
  "children info key =
     (case dict_get info key (JObj []) of
        Inl e \<Rightarrow> Inl e
      | Inr v \<Rightarrow> items v)"


subsection \<open>Lookup tables\<close>

type_synonym table = "(str \<times> json) list"

text \<open>
  The loop that adds the synonyms of an entry, each only if its token is not in the table
  yet (lines 110-111, 171-172, 175-176, 179-180).
\<close>

fun synonyms_loop :: "tables \<Rightarrow> json list \<Rightarrow> json \<Rightarrow> table \<Rightarrow> py_error + table" where
  "synonyms_loop U [] info tbl = Inr tbl"
| "synonyms_loop U (x # xs) info tbl =
     (case token_of U x of
        Inl e \<Rightarrow> Inl e
      | Inr t \<Rightarrow> synonyms_loop U xs info (setdefault t info tbl))"

text \<open>Lines 108-109: the entry's own name, only if its token is not in the table yet.\<close>

definition add_name :: "tables \<Rightarrow> json \<Rightarrow> table \<Rightarrow> py_error + table" where
  "add_name U info tbl =
     (case contains info (lit ''name'') of
        Inl e \<Rightarrow> Inl e
      | Inr False \<Rightarrow> Inr tbl
      | Inr True \<Rightarrow>
     (case getitem info (lit ''name'') of
        Inl e \<Rightarrow> Inl e
      | Inr n \<Rightarrow>
     (case token_of U n of
        Inl e \<Rightarrow> Inl e
      | Inr t \<Rightarrow> Inr (setdefault t info tbl))))"

text \<open>Lines 106-111. The key's own token is stored unconditionally.\<close>

fun lookup_table_loop :: "tables \<Rightarrow> (str \<times> json) list \<Rightarrow> table \<Rightarrow> py_error + table" where
  "lookup_table_loop U [] result = Inr result"
| "lookup_table_loop U ((key, info) # rest) result =
     (case add_name U info (AList.update (make_token U key) info result) of
        Inl e \<Rightarrow> Inl e
      | Inr r1 \<Rightarrow>
     (case synonyms_of info of
        Inl e \<Rightarrow> Inl e
      | Inr syns \<Rightarrow>
     (case synonyms_loop U syns info r1 of
        Inl e \<Rightarrow> Inl e
      | Inr r2 \<Rightarrow> lookup_table_loop U rest r2)))"

text \<open>
  Lines 97-113, as a function of the dataset that \<^verbatim>\<open>get_dataset(path)\<close> loads. The table
  is built once per path and kept, so every call returns this value.
\<close>

definition get_lookup_table :: "tables \<Rightarrow> json \<Rightarrow> py_error + table" where
  "get_lookup_table U dataset =
     (case items dataset of
        Inl e \<Rightarrow> Inl e
      | Inr kvs \<Rightarrow> lookup_table_loop U kvs [])"

text \<open>The entry for a name that normalises to \<open>n\<close>, with \<^verbatim>\<open>None\<close> as null.\<close>

definition name_value :: "str option \<Rightarrow> json" where
  "name_value n = (case n of None \<Rightarrow> JNull | Some s \<Rightarrow> JStr s)"

text \<open>
  Lines 116-133, on the dataset of \<^verbatim>\<open>inputs/org-map.json\<close>. The result comes with the
  lines printed to the error stream.
\<close>

definition lookup_org :: "tables \<Rightarrow> json \<Rightarrow> str option \<Rightarrow> py_error + (json option \<times> str list)" where
  "lookup_org U dataset name =
     (case name of
        None \<Rightarrow> Inr (None, [])
      | Some s \<Rightarrow>
          if is_empty (Some s) then Inr (None, [])
          else (case get_lookup_table U dataset of
                  Inl e \<Rightarrow> Inl e
                | Inr tbl \<Rightarrow>
                    (case map_of tbl (make_token U s) of
                       Some info \<Rightarrow> Inr (Some info, [])
                     | None \<Rightarrow>
                         Inr (Some (JObj [(lit ''name'', name_value (normalise_string (Some s))),
                                          (lit ''scope'', JStr (lit ''unknown''))]),
                              [lit ''Failed lookup |'' @ make_token U s @ lit ''|'']))))"


subsection \<open>The location table\<close>

text \<open>
  The table holds references to the objects of the dataset, and lines 160, 166 and 167
  write the stamps into those objects. What a lookup returns once the table is built is
  the object with every stamp in it, also those written after the object went into the
  table: into the sites of a district, into the districts and sites of a region. No object
  of a parsed JSON file is shared, and no key that the loops read is ever written. The
  model has values, not references, so what it puts into the table is the object as it
  is at the end of the build: \<open>district_entry\<close> for a district that has its own stamp,
  \<open>region_entry\<close> for a region. The reads that raise stay in the loops, in the order of
  the source.
\<close>

fun stamp :: "str \<Rightarrow> json \<Rightarrow> json \<Rightarrow> json" where
  "stamp k v (JObj kvs) = JObj (AList.update k v kvs)"
| "stamp k v x = x"

definition stamp_children :: "str \<Rightarrow> (json \<Rightarrow> json) \<Rightarrow> json \<Rightarrow> json" where
  "stamp_children key f info =
     (case info of
        JObj kvs \<Rightarrow>
          (case map_of kvs key of
             Some (JObj cs) \<Rightarrow> JObj (AList.update key (JObj (map (\<lambda>nc. (fst nc, f (snd nc))) cs)) kvs)
           | _ \<Rightarrow> info)
      | _ \<Rightarrow> info)"

definition site_entry :: "json \<Rightarrow> json \<Rightarrow> json \<Rightarrow> json" where
  "site_entry rname dname info3 = stamp (lit ''admin2'') dname (stamp (lit ''admin1'') rname info3)"

definition district_entry :: "json \<Rightarrow> json \<Rightarrow> json" where
  "district_entry rname d =
     (case getitem d (lit ''name'') of
        Inl e \<Rightarrow> d
      | Inr dname \<Rightarrow> stamp_children (lit ''unclassified'') (site_entry rname dname) d)"

definition region_entry :: "json \<Rightarrow> json" where
  "region_entry info1 =
     (case getitem info1 (lit ''name'') of
        Inl e \<Rightarrow> info1
      | Inr rname \<Rightarrow>
          stamp_children (lit ''admin2'')
            (\<lambda>info2. district_entry rname (stamp (lit ''admin1'') rname info2)) info1)"

text \<open>Lines 164-172, the sites of one district; \<open>info2\<close> has its stamp already.\<close>

fun sites_loop :: "tables \<Rightarrow> json \<Rightarrow> json \<Rightarrow> (str \<times> json) list \<Rightarrow> table \<Rightarrow> py_error + table" where
  "sites_loop U info1 info2 [] tbl = Inr tbl"
| "sites_loop U info1 info2 ((name3, info3) # rest) tbl =
     (case getitem info1 (lit ''name'') of
        Inl e \<Rightarrow> Inl e
      | Inr rname \<Rightarrow>
     (case setitem info3 (lit ''admin1'') rname of
        Inl e \<Rightarrow> Inl e
      | Inr s1 \<Rightarrow>
     (case getitem info2 (lit ''name'') of
        Inl e \<Rightarrow> Inl e
      | Inr dname \<Rightarrow>
     (case setitem s1 (lit ''admin2'') dname of
        Inl e \<Rightarrow> Inl e
      | Inr s2 \<Rightarrow>
     (case synonyms_of s2 of
        Inl e \<Rightarrow> Inl e
      | Inr syns \<Rightarrow>
     (case synonyms_loop U syns s2 (setdefault (make_token U name3) s2 tbl) of
        Inl e \<Rightarrow> Inl e
      | Inr tbl1 \<Rightarrow> sites_loop U info1 info2 rest tbl1))))))"

text \<open>Lines 158-176, the districts of one region.\<close>

fun districts_loop :: "tables \<Rightarrow> json \<Rightarrow> (str \<times> json) list \<Rightarrow> table \<Rightarrow> py_error + table" where
  "districts_loop U info1 [] tbl = Inr tbl"
| "districts_loop U info1 ((name2, info2) # rest) tbl =
     (case getitem info1 (lit ''name'') of
        Inl e \<Rightarrow> Inl e
      | Inr rname \<Rightarrow>
     (case setitem info2 (lit ''admin1'') rname of
        Inl e \<Rightarrow> Inl e
      | Inr d \<Rightarrow>
     (case children d (lit ''unclassified'') of
        Inl e \<Rightarrow> Inl e
      | Inr sites \<Rightarrow>
     (case sites_loop U info1 d sites
             (setdefault (make_token U name2) (district_entry rname d) tbl) of
        Inl e \<Rightarrow> Inl e
      | Inr tbl1 \<Rightarrow>
     (case synonyms_of d of
        Inl e \<Rightarrow> Inl e
      | Inr syns \<Rightarrow>
     (case synonyms_loop U syns (district_entry rname d) tbl1 of
        Inl e \<Rightarrow> Inl e
      | Inr tbl2 \<Rightarrow> districts_loop U info1 rest tbl2))))))"

text \<open>Lines 151-180, the regions. The region's own token is stored unconditionally.\<close>

fun regions_loop :: "tables \<Rightarrow> (str \<times> json) list \<Rightarrow> table \<Rightarrow> py_error + table" where
  "regions_loop U [] tbl = Inr tbl"
| "regions_loop U ((name1, info1) # rest) tbl =
     (case children info1 (lit ''admin2'') of
        Inl e \<Rightarrow> Inl e
      | Inr districts \<Rightarrow>
     (case districts_loop U info1 districts
             (AList.update (make_token U name1) (region_entry info1) tbl) of
        Inl e \<Rightarrow> Inl e
      | Inr tbl1 \<Rightarrow>
     (case synonyms_of info1 of
        Inl e \<Rightarrow> Inl e
      | Inr syns \<Rightarrow>
     (case synonyms_loop U syns (region_entry info1) tbl1 of
        Inl e \<Rightarrow> Inl e
      | Inr tbl2 \<Rightarrow> regions_loop U rest tbl2))))"

text \<open>
  Lines 142-182, as a function of the dataset of \<^verbatim>\<open>inputs/location-map.json\<close>. The table
  is built at the first call and kept, so every call returns this value.
\<close>

definition get_location_lookup_table :: "tables \<Rightarrow> json \<Rightarrow> py_error + table" where
  "get_location_lookup_table U dataset =
     (case items dataset of
        Inl e \<Rightarrow> Inl e
      | Inr regions \<Rightarrow> regions_loop U regions [])"

text \<open>
  Lines 185-196. An empty name is answered before the table is built; the table is built
  before the name is tokenized, and \<^verbatim>\<open>re.sub\<close> accepts only a string.
\<close>

definition lookup_location :: "tables \<Rightarrow> json \<Rightarrow> str option \<Rightarrow> str \<Rightarrow> py_error + json option" where
  "lookup_location U dataset name loctype =
     (if is_empty name then Inr None
      else case get_location_lookup_table U dataset of
        Inl e \<Rightarrow> Inl e
      | Inr tbl \<Rightarrow>
     (case name of
        None \<Rightarrow> Inl TypeError
      | Some s \<Rightarrow>
     (case map_of tbl (make_token U s) of
        Some info \<Rightarrow> Inr (Some info)
      | None \<Rightarrow>
          Inr (Some (JObj [(lit ''level'', JStr loctype),
                           (lit ''name'', name_value (normalise_string name))])))))"

section \<open>Reading tokens and tables\<close>

subsection \<open>Python's tables\<close>

text \<open>
  Four facts of Python's tables, each about every character: the space is not a word
  character; the lowercase form of a space is the space; the lowercase form of a word
  character is not empty and has no space in it; and a character of a lowercase form is
  its own lowercase form, wherever it stands.
\<close>

definition unicode_facts :: "tables \<Rightarrow> bool" where
  "unicode_facts U \<longleftrightarrow>
     \<not> isword U 32 \<and>
     (\<forall>before after. lower_form U before 32 after = [32]) \<and>
     (\<forall>before c after. isword U c \<longrightarrow>
        lower_form U before c after \<noteq> [] \<and> 32 \<notin> set (lower_form U before c after)) \<and>
     (\<forall>before c after d before' after'.
        d \<in> set (lower_form U before c after) \<longrightarrow> lower_form U before' d after' = [d])"

text \<open>
  Every word character of the string has a lowercase form made of word characters,
  wherever it stands.
\<close>

definition lowers_to_words :: "tables \<Rightarrow> str \<Rightarrow> bool" where
  "lowers_to_words U s \<longleftrightarrow>
     (\<forall>c\<in>set s. isword U c \<longrightarrow>
        (\<forall>before after. \<forall>d\<in>set (lower_form U before c after). isword U d))"

text \<open>
  The rows of Python's tables for the characters below U+0080, for U+0130 (the capital I
  with a dot above) and for U+0307 (the combining dot above): the word characters among
  them are the ASCII letters, the digits, the underscore and U+0130; the lowercase form
  of an ASCII capital is its small letter, that of U+0130 is U+0069 followed by U+0307,
  and every other one of these characters is its own lowercase form. None of the forms
  depends on the neighbours. The examples use these rows, on strings of these characters
  only.
\<close>

definition sample_isword :: "nat \<Rightarrow> bool" where
  "sample_isword c \<longleftrightarrow>
     (48 \<le> c \<and> c \<le> 57) \<or> (65 \<le> c \<and> c \<le> 90) \<or> c = 95 \<or> (97 \<le> c \<and> c \<le> 122) \<or> c = 304"

definition sample_lower_form :: "str \<Rightarrow> nat \<Rightarrow> str \<Rightarrow> str" where
  "sample_lower_form before c after =
     (if 65 \<le> c \<and> c \<le> 90 then [c + 32] else if c = 304 then [105, 775] else [c])"

definition sample_tables :: tables where
  "sample_tables = \<lparr>isword = sample_isword, lower_form = sample_lower_form\<rparr>"

subsection \<open>Example datasets\<close>

text \<open>
  An organization map with one organization, and a location map with one region that has
  one district; the district and the region as they are once the location table is built.
\<close>

definition example_orgs :: json where
  "example_orgs =
     JObj [(lit ''Oxfam'',
            JObj [(lit ''name'', JStr (lit ''Oxfam'')),
                  (lit ''scope'', JStr (lit ''international'')),
                  (lit ''synonyms'', JArr [JStr (lit ''Oxfam International'')])])]"

definition example_org :: json where
  "example_org =
     JObj [(lit ''name'', JStr (lit ''Oxfam'')),
           (lit ''scope'', JStr (lit ''international'')),
           (lit ''synonyms'', JArr [JStr (lit ''Oxfam International'')])]"

definition example_locations :: json where
  "example_locations =
     JObj [(lit ''North'',
            JObj [(lit ''name'', JStr (lit ''North'')),
                  (lit ''admin2'',
                   JObj [(lit ''Dist X'', JObj [(lit ''name'', JStr (lit ''Dist X''))])])])]"

definition example_district :: json where
  "example_district = JObj [(lit ''name'', JStr (lit ''Dist X'')), (lit ''admin1'', JStr (lit ''North''))]"

definition example_region :: json where
  "example_region =
     JObj [(lit ''name'', JStr (lit ''North'')),
           (lit ''admin2'', JObj [(lit ''Dist X'', example_district)])]"

section \<open>The insertions into the location table, in the order of the spec\<close>

text \<open>
  Total readers of a dataset: a field of an object, the children under a key, the regions
  of the dataset, the tokens of the strings of a list. Where the loops of the source would
  raise, they give null or nothing.
\<close>

definition field :: "json \<Rightarrow> str \<Rightarrow> json" where
  "field info k = (case getitem info k of Inl e \<Rightarrow> JNull | Inr v \<Rightarrow> v)"

definition child_list :: "json \<Rightarrow> str \<Rightarrow> (str \<times> json) list" where
  "child_list info key = (case children info key of Inl e \<Rightarrow> [] | Inr cs \<Rightarrow> cs)"

definition regions_of :: "json \<Rightarrow> (str \<times> json) list" where
  "regions_of dataset = (case items dataset of Inl e \<Rightarrow> [] | Inr rs \<Rightarrow> rs)"

fun tokens_of :: "tables \<Rightarrow> json list \<Rightarrow> str list" where
  "tokens_of U [] = []"
| "tokens_of U (JStr s # xs) = make_token U s # tokens_of U xs"
| "tokens_of U (x # xs) = tokens_of U xs"

text \<open>
  The insertions of section 4.4 of the spec, each with the entry it offers to the table,
  in the spec's order: a region's own token first; then, for each of its districts, the
  district's token, for each site of the district the site's token and the tokens of the
  site's synonyms, and the tokens of the district's synonyms; then the tokens of the
  region's synonyms. \<open>map_of\<close> of such a list is the first entry listed under a token.
\<close>

definition synonym_insertions :: "tables \<Rightarrow> json \<Rightarrow> json \<Rightarrow> table" where
  "synonym_insertions U info e =
     (case synonyms_of info of
        Inl err \<Rightarrow> []
      | Inr xs \<Rightarrow> map (\<lambda>t. (t, e)) (tokens_of U xs))"

definition site_insertions :: "tables \<Rightarrow> json \<Rightarrow> json \<Rightarrow> str \<times> json \<Rightarrow> table" where
  "site_insertions U rname dname site =
     (let e = site_entry rname dname (snd site)
      in (make_token U (fst site), e) # synonym_insertions U e e)"

definition district_insertions :: "tables \<Rightarrow> json \<Rightarrow> str \<times> json \<Rightarrow> table" where
  "district_insertions U rname district =
     (let d = stamp (lit ''admin1'') rname (snd district);
          e = district_entry rname d
      in (make_token U (fst district), e)
         # concat (map (site_insertions U rname (field d (lit ''name'')))
                       (child_list d (lit ''unclassified'')))
         @ synonym_insertions U d e)"

definition lower_insertions :: "tables \<Rightarrow> json \<Rightarrow> table" where
  "lower_insertions U info1 =
     concat (map (district_insertions U (field info1 (lit ''name'')))
                 (child_list info1 (lit ''admin2'')))
     @ synonym_insertions U info1 (region_entry info1)"

definition region_token :: "tables \<Rightarrow> str \<times> json \<Rightarrow> str \<times> json" where
  "region_token U region = (make_token U (fst region), region_entry (snd region))"

definition region_insertions :: "tables \<Rightarrow> str \<times> json \<Rightarrow> table" where
  "region_insertions U region = region_token U region # lower_insertions U (snd region)"

definition insertions :: "tables \<Rightarrow> json \<Rightarrow> table" where
  "insertions U dataset = concat (map (region_insertions U) (regions_of dataset))"

definition region_tokens :: "tables \<Rightarrow> json \<Rightarrow> table" where
  "region_tokens U dataset = map (region_token U) (regions_of dataset)"

text \<open>
  The districts of a dataset, each as the triple of its region, the district with its own
  stamp, and its entry; and the sites, each as the triple of its region, its district (with
  the district's stamp) and the site's entry.
\<close>

definition district_entries :: "json \<Rightarrow> (json \<times> json \<times> json) list" where
  "district_entries dataset =
     concat (map (\<lambda>region.
               map (\<lambda>district.
                      (snd region,
                       stamp (lit ''admin1'') (field (snd region) (lit ''name'')) (snd district),
                       district_entry (field (snd region) (lit ''name''))
                         (stamp (lit ''admin1'') (field (snd region) (lit ''name'')) (snd district))))
                   (child_list (snd region) (lit ''admin2'')))
             (regions_of dataset))"

definition site_entries :: "json \<Rightarrow> (json \<times> json \<times> json) list" where
  "site_entries dataset =
     concat (map (\<lambda>rde.
               map (\<lambda>site.
                      (fst rde, fst (snd rde),
                       site_entry (field (fst rde) (lit ''name'')) (field (fst (snd rde)) (lit ''name''))
                         (snd site)))
                   (child_list (fst (snd rde)) (lit ''unclassified'')))
             (district_entries dataset))"

text \<open>
  What the loops have written when they return: into a site of the district \<open>d\<close> of the
  region \<open>info1\<close> the region's \<^verbatim>\<open>name\<close> under \<^verbatim>\<open>admin1\<close> and the district's \<^verbatim>\<open>name\<close> under
  \<^verbatim>\<open>admin2\<close>; into a district the region's \<^verbatim>\<open>name\<close> under \<^verbatim>\<open>admin1\<close>, and the stamps of
  its sites.
\<close>

definition site_written :: "json \<Rightarrow> json \<Rightarrow> str \<times> json \<Rightarrow> bool" where
  "site_written info1 d site \<longleftrightarrow>
     (\<exists>rname dname.
        getitem info1 (lit ''name'') = Inr rname \<and> getitem d (lit ''name'') = Inr dname \<and>
        getitem (site_entry rname dname (snd site)) (lit ''admin1'') = Inr rname \<and>
        getitem (site_entry rname dname (snd site)) (lit ''admin2'') = Inr dname)"

definition district_written :: "json \<Rightarrow> str \<times> json \<Rightarrow> bool" where
  "district_written info1 district \<longleftrightarrow>
     (\<exists>rname.
        getitem info1 (lit ''name'') = Inr rname \<and>
        getitem (district_entry rname (stamp (lit ''admin1'') rname (snd district))) (lit ''admin1'')
          = Inr rname \<and>
        (\<forall>site\<in>set (child_list (stamp (lit ''admin1'') rname (snd district)) (lit ''unclassified'')).
           site_written info1 (stamp (lit ''admin1'') rname (snd district)) site))"

section \<open>The stamps of an entry\<close>

text \<open>
  What claim C7 says of an entry that the table returns, read from the entry alone with
  \<^verbatim>\<open>x[k]\<close> and the children under a key. A site has the stamps of a region and a district
  when its \<^verbatim>\<open>admin1\<close> is the region's \<^verbatim>\<open>name\<close> and its \<^verbatim>\<open>admin2\<close> is the district's \<^verbatim>\<open>name\<close>.
  A district has the stamps of a region when its \<^verbatim>\<open>admin1\<close> is the region's \<^verbatim>\<open>name\<close> and
  every site under its \<^verbatim>\<open>unclassified\<close> has the stamps of the region and of this district.
  A region is stamped when every district under its \<^verbatim>\<open>admin2\<close> has the region's stamps.
\<close>

definition stamped_site :: "json \<Rightarrow> json \<Rightarrow> json \<Rightarrow> bool" where
  "stamped_site region district e \<longleftrightarrow>
     (\<exists>rname dname.
        getitem region (lit ''name'') = Inr rname \<and> getitem district (lit ''name'') = Inr dname \<and>
        getitem e (lit ''admin1'') = Inr rname \<and> getitem e (lit ''admin2'') = Inr dname)"

definition stamped_district :: "json \<Rightarrow> json \<Rightarrow> bool" where
  "stamped_district region e \<longleftrightarrow>
     (\<exists>rname. getitem region (lit ''name'') = Inr rname \<and> getitem e (lit ''admin1'') = Inr rname) \<and>
     (\<forall>site\<in>set (child_list e (lit ''unclassified'')). stamped_site region e (snd site))"

definition stamped_region :: "json \<Rightarrow> bool" where
  "stamped_region e \<longleftrightarrow>
     (\<forall>district\<in>set (child_list e (lit ''admin2'')). stamped_district e (snd district))"

text \<open>
  \<open>e\<close> is an entry of the object \<open>info\<close> of the dataset: it has the \<^verbatim>\<open>name\<close> of \<open>info\<close>, and
  under \<open>key\<close> children of the same names in the same order.
\<close>

definition entry_of :: "json \<Rightarrow> json \<Rightarrow> str \<Rightarrow> bool" where
  "entry_of e info key \<longleftrightarrow>
     getitem e (lit ''name'') = getitem info (lit ''name'') \<and>
     map fst (child_list e key) = map fst (child_list info key)"

section \<open>A dataset with colliding tokens\<close>

text \<open>
  A location map in which tokens collide. Region \<^verbatim>\<open>A\<close> has the district \<^verbatim>\<open>X\<close> with the site
  \<^verbatim>\<open>a\<close>, and the district \<^verbatim>\<open>Y\<close> with the site \<^verbatim>\<open>Camp\<close>; region \<^verbatim>\<open>B\<close> has the districts \<^verbatim>\<open>x\<close>
  and \<^verbatim>\<open>y\<close>; the last region is \<^verbatim>\<open>X\<close>. With it, the sites, the districts and the regions
  as they are once the table is built, and the table.
\<close>

definition collision_example :: json where
  "collision_example =
     JObj [(lit ''A'',
            JObj [(lit ''name'', JStr (lit ''A'')),
                  (lit ''admin2'',
                   JObj [(lit ''X'',
                          JObj [(lit ''name'', JStr (lit ''X'')),
                                (lit ''unclassified'',
                                 JObj [(lit ''a'', JObj [(lit ''name'', JStr (lit ''Site a''))])])]),
                         (lit ''Y'',
                          JObj [(lit ''name'', JStr (lit ''Y'')),
                                (lit ''unclassified'',
                                 JObj [(lit ''Camp'', JObj [(lit ''name'', JStr (lit ''Camp''))])])])])]),
           (lit ''B'',
            JObj [(lit ''name'', JStr (lit ''B'')),
                  (lit ''admin2'',
                   JObj [(lit ''x'', JObj [(lit ''name'', JStr (lit ''x''))]),
                         (lit ''y'', JObj [(lit ''name'', JStr (lit ''y''))])])]),
           (lit ''X'', JObj [(lit ''name'', JStr (lit ''Region X''))])]"

definition collision_site :: json where
  "collision_site =
     JObj [(lit ''name'', JStr (lit ''Site a'')), (lit ''admin1'', JStr (lit ''A'')),
           (lit ''admin2'', JStr (lit ''X''))]"

definition collision_district :: json where
  "collision_district =
     JObj [(lit ''name'', JStr (lit ''X'')),
           (lit ''unclassified'', JObj [(lit ''a'', collision_site)]),
           (lit ''admin1'', JStr (lit ''A''))]"

definition collision_camp :: json where
  "collision_camp =
     JObj [(lit ''name'', JStr (lit ''Camp'')), (lit ''admin1'', JStr (lit ''A'')),
           (lit ''admin2'', JStr (lit ''Y''))]"

definition collision_district_y :: json where
  "collision_district_y =
     JObj [(lit ''name'', JStr (lit ''Y'')),
           (lit ''unclassified'', JObj [(lit ''Camp'', collision_camp)]),
           (lit ''admin1'', JStr (lit ''A''))]"

definition collision_region :: json where
  "collision_region =
     JObj [(lit ''name'', JStr (lit ''A'')),
           (lit ''admin2'', JObj [(lit ''X'', collision_district), (lit ''Y'', collision_district_y)])]"

definition collision_region_b :: json where
  "collision_region_b =
     JObj [(lit ''name'', JStr (lit ''B'')),
           (lit ''admin2'',
            JObj [(lit ''x'', JObj [(lit ''name'', JStr (lit ''x'')), (lit ''admin1'', JStr (lit ''B''))]),
                  (lit ''y'', JObj [(lit ''name'', JStr (lit ''y'')), (lit ''admin1'', JStr (lit ''B''))])])]"

definition collision_region_x :: json where
  "collision_region_x = JObj [(lit ''name'', JStr (lit ''Region X''))]"

definition collision_table :: table where
  "collision_table =
     [(lit ''a'', collision_region), (lit ''x'', collision_region_x),
      (lit ''y'', collision_district_y), (lit ''camp'', collision_camp),
      (lit ''b'', collision_region_b)]"

section \<open>Properties of the location index\<close>

subsection \<open>Dictionaries and counters\<close>

lemma map_of_setdefault:
  "map_of (setdefault k v d) k' =
     (if k' = k then (case map_of d k of Some x \<Rightarrow> Some x | None \<Rightarrow> Some v) else map_of d k')"
  by (auto simp: setdefault_def map_add_def split: option.splits)

lemma map_of_update_setdefault:
  "map_of (AList.update k v (setdefault k d m)) = (map_of m)(k \<mapsto> v)"
  by (rule ext) (simp add: update_conv' map_of_setdefault)

lemma dom_update_setdefault:
  "dom (map_of (AList.update k v (setdefault k d m))) = insert k (dom (map_of m))"
  unfolding map_of_update_setdefault by simp

lemma dom_map_of_empty_iff: "dom (map_of m) = {} \<longleftrightarrow> m = []"
  by (cases m) auto

lemma bumped_refl: "bumped c c name 0"
  by (simp add: bumped_def)

lemma bumped_trans: "bumped c c1 name n \<Longrightarrow> bumped c1 c2 name k \<Longrightarrow> bumped c c2 name (n + k)"
  by (auto simp: bumped_def count_of_def)

lemma increment_Inr:
  "increment k c = Inr (AList.update k (count_of c k + 1) (setdefault k 0 c))"
  by (simp add: increment_def count_of_def map_of_setdefault split: option.splits)

lemma increment_bumped: "increment k c = Inr c' \<Longrightarrow> bumped c c' name (if name = k then 1 else 0)"
  by (auto simp: increment_Inr bumped_def update_conv' map_of_setdefault count_of_def split: option.splits)

lemma occurrences_Cons:
  "occurrences (x # xs) loc = (if truthy x \<and> str_strip x = Inr loc then 1 else 0) + occurrences xs loc"
  by (simp add: occurrences_def)

lemma occurrences_pos_iff:
  "0 < occurrences xs loc \<longleftrightarrow> (\<exists>x\<in>set xs. truthy x \<and> str_strip x = Inr loc)"
  by (auto simp: occurrences_def filter_empty_conv)

lemma count_names_bumped: "count_names xs c = Inr c' \<Longrightarrow> bumped c c' name (occurrences xs name)"
proof (induction xs arbitrary: c)
  case Nil
  then show ?case by (simp add: occurrences_def bumped_refl)
next
  case (Cons x xs)
  show ?case
  proof (cases "truthy x")
    case False
    with Cons show ?thesis by (simp add: occurrences_def)
  next
    case True
    with Cons.prems obtain k c1 where k: "str_strip x = Inr k" and c1: "increment k c = Inr c1"
      and rest: "count_names xs c1 = Inr c'"
      by (auto split: sum.splits)
    from increment_bumped[OF c1] Cons.IH[OF rest]
    have "bumped c c' name ((if name = k then 1 else 0) + occurrences xs name)"
      by (rule bumped_trans)
    with True k show ?thesis by (auto simp: occurrences_def)
  qed
qed

lemma orgs_loop_bumped:
  "orgs_loop a roles c = Inr c' \<Longrightarrow>
   bumped c c' name (sum_list (map (\<lambda>role. case listed a (lit ''orgs'') role of
                              Inl e \<Rightarrow> 0 | Inr xs \<Rightarrow> occurrences xs name) roles))"
proof (induction roles arbitrary: c)
  case Nil
  then show ?case by (simp add: bumped_refl)
next
  case (Cons role roles)
  from Cons.prems obtain xs c1 where xs: "listed a (lit ''orgs'') role = Inr xs"
    and c1: "count_names xs c = Inr c1" and rest: "orgs_loop a roles c1 = Inr c'"
    by (auto split: sum.splits)
  from count_names_bumped[OF c1] Cons.IH[OF rest] xs show ?case
    by (auto dest: bumped_trans)
qed

lemma entry_step_bumped:
  "entry_step a en = Inr en' \<Longrightarrow> bumped (orgs en) (orgs en') name (org_occ a name)"
  by (auto simp: entry_step_def org_occ_def split: sum.splits dest: orgs_loop_bumped)

subsection \<open>One location of one activity\<close>

lemma location_step_skip: "\<not> truthy l \<Longrightarrow> location_step a l m = Inr m"
  by (simp add: location_step_def)

lemma location_step_hit:
  assumes "location_step a l m = Inr m'" "truthy l"
  obtains loc en1 where "str_strip l = Inr loc"
    "entry_step a (case map_of m loc of None \<Rightarrow> \<lparr>activities = [], orgs = [], sectors = []\<rparr> | Some en \<Rightarrow> en) = Inr en1"
    "map_of m' = (map_of m)(loc \<mapsto> en1)"
proof -
  from assms obtain loc where loc: "str_strip l = Inr loc"
    by (auto simp: location_step_def split: sum.splits)
  let ?en = "case map_of m loc of None \<Rightarrow> \<lparr>activities = [], orgs = [], sectors = []\<rparr> | Some en \<Rightarrow> en"
  have en: "map_of (setdefault loc \<lparr>activities = [], orgs = [], sectors = []\<rparr> m) loc = Some ?en"
    by (simp add: map_of_setdefault split: option.splits)
  from assms loc en obtain en1 where en1: "entry_step a ?en = Inr en1"
    and m': "m' = AList.update loc en1 (setdefault loc \<lparr>activities = [], orgs = [], sectors = []\<rparr> m)"
    by (auto simp: location_step_def split: sum.splits)
  from m' have "map_of m' = (map_of m)(loc \<mapsto> en1)"
    by (simp add: map_of_update_setdefault)
  with loc en1 that show thesis by blast
qed

lemma location_step_bumped:
  assumes "location_step a l m = Inr m'"
  shows "bumped (orgs_at m loc) (orgs_at m' loc) name
           (if truthy l \<and> str_strip l = Inr loc then org_occ a name else 0)"
proof (cases "truthy l")
  case False
  with assms show ?thesis by (simp add: location_step_skip bumped_refl)
next
  case True
  from assms True obtain k en1 where k: "str_strip l = Inr k"
    and en1: "entry_step a (case map_of m k of None \<Rightarrow> \<lparr>activities = [], orgs = [], sectors = []\<rparr> | Some en \<Rightarrow> en) = Inr en1"
    and m': "map_of m' = (map_of m)(k \<mapsto> en1)"
    by (rule location_step_hit)
  show ?thesis
  proof (cases "k = loc")
    case False
    with True k m' show ?thesis by (simp add: orgs_at_def bumped_refl)
  next
    case eq: True
    from entry_step_bumped[OF en1, of name] eq True k m' show ?thesis
      by (auto simp: orgs_at_def split: option.splits)
  qed
qed

lemma location_step_dom:
  assumes "location_step a l m = Inr m'"
  shows "dom (map_of m') = dom (map_of m) \<union> {loc. truthy l \<and> str_strip l = Inr loc}"
proof (cases "truthy l")
  case False
  with assms show ?thesis by (simp add: location_step_skip)
next
  case True
  from assms True obtain k en1 where "str_strip l = Inr k" "map_of m' = (map_of m)(k \<mapsto> en1)"
    by (rule location_step_hit)
  with True show ?thesis by auto
qed

subsection \<open>Org counts through the loops\<close>

lemma locations_loop_bumped:
  "locations_loop a locs m = Inr m' \<Longrightarrow>
   bumped (orgs_at m loc) (orgs_at m' loc) name (occurrences locs loc * org_occ a name)"
proof (induction locs arbitrary: m)
  case Nil
  then show ?case by (simp add: occurrences_def bumped_refl)
next
  case (Cons l locs)
  from Cons.prems obtain m1 where m1: "location_step a l m = Inr m1"
    and rest: "locations_loop a locs m1 = Inr m'"
    by (auto split: sum.splits)
  from location_step_bumped[OF m1] Cons.IH[OF rest]
  have "bumped (orgs_at m loc) (orgs_at m' loc) name
          ((if truthy l \<and> str_strip l = Inr loc then org_occ a name else 0)
           + occurrences locs loc * org_occ a name)"
    by (rule bumped_trans)
  then show ?case by (auto simp: occurrences_def)
qed

lemma loctype_loop_other:
  "loctype_loop a lts idx = Inr idx' \<Longrightarrow> lt \<notin> set lts \<Longrightarrow> map_of idx' lt = map_of idx lt"
proof (induction lts arbitrary: idx)
  case Nil
  then show ?case by simp
next
  case (Cons t lts)
  from Cons.prems(1) obtain m1
    where rest: "loctype_loop a lts (AList.update t m1 (setdefault t [] idx)) = Inr idx'"
    by (auto split: sum.splits option.splits)
  from Cons.prems(2) have "lt \<notin> set lts" "lt \<noteq> t" by auto
  with Cons.IH[OF rest] show ?case
    by (simp add: map_of_update_setdefault)
qed

lemma loctype_loop_bumped:
  "loctype_loop a lts idx = Inr idx' \<Longrightarrow> distinct lts \<Longrightarrow> lt \<in> set lts \<Longrightarrow>
   bumped (orgs_at (entries_at idx lt) loc) (orgs_at (entries_at idx' lt) loc) name
     (loc_occ a lt loc * org_occ a name)"
proof (induction lts arbitrary: idx)
  case Nil
  then show ?case by simp
next
  case (Cons t lts)
  from Cons.prems(1) obtain locs m m1 where locs: "listed a (lit ''locations'') t = Inr locs"
    and m: "map_of (setdefault t [] idx) t = Some m"
    and m1: "locations_loop a locs m = Inr m1"
    and rest: "loctype_loop a lts (AList.update t m1 (setdefault t [] idx)) = Inr idx'"
    by (auto split: sum.splits option.splits)
  show ?case
  proof (cases "lt = t")
    case True
    with Cons.prems(2) have "lt \<notin> set lts" by simp
    then have "map_of idx' lt = Some m1"
      using loctype_loop_other[OF rest] True by (simp add: update_conv')
    moreover have "entries_at idx lt = m"
      using m True by (auto simp: entries_at_def map_of_setdefault split: option.splits)
    ultimately show ?thesis
      using locations_loop_bumped[OF m1, of loc name] locs True
      by (simp add: entries_at_def loc_occ_def)
  next
    case False
    with Cons.prems have "lt \<in> set lts" "distinct lts" by auto
    from Cons.IH[OF rest this(2) this(1)] False show ?thesis
      by (simp add: entries_at_def update_conv' map_of_setdefault)
  qed
qed

lemma activities_loop_bumped:
  "activities_loop acts idx = Inr idx' \<Longrightarrow> lt \<in> set LOCATION_TYPES \<Longrightarrow>
   bumped (orgs_at (entries_at idx lt) loc) (orgs_at (entries_at idx' lt) loc) name
     (sum_list (map (\<lambda>a. loc_occ a lt loc * org_occ a name) acts))"
proof (induction acts arbitrary: idx)
  case Nil
  then show ?case by (simp add: bumped_refl)
next
  case (Cons a acts)
  from Cons.prems obtain idx1 where i1: "loctype_loop a LOCATION_TYPES idx = Inr idx1"
    and rest: "activities_loop acts idx1 = Inr idx'"
    by (auto split: sum.splits)
  have d: "distinct LOCATION_TYPES" by (simp add: LOCATION_TYPES_def)
  from loctype_loop_bumped[OF i1 d Cons.prems(2)] Cons.IH[OF rest Cons.prems(2)]
  show ?case by (auto dest: bumped_trans)
qed

subsection \<open>Keys of the index\<close>

lemma locations_loop_dom:
  "locations_loop a locs m = Inr m' \<Longrightarrow>
   dom (map_of m') = dom (map_of m) \<union> {loc. 0 < occurrences locs loc}"
proof (induction locs arbitrary: m)
  case Nil
  then show ?case by (simp add: occurrences_def)
next
  case (Cons l locs)
  from Cons.prems obtain m1 where m1: "location_step a l m = Inr m1"
    and rest: "locations_loop a locs m1 = Inr m'"
    by (auto split: sum.splits)
  from location_step_dom[OF m1] Cons.IH[OF rest] show ?case
    by (auto simp: occurrences_Cons)
qed

lemma loctype_loop_dom:
  "loctype_loop a lts idx = Inr idx' \<Longrightarrow> distinct lts \<Longrightarrow> lt \<in> set lts \<Longrightarrow>
   \<exists>m'. map_of idx' lt = Some m' \<and>
     dom (map_of m') = dom (map_of (entries_at idx lt)) \<union> {loc. 0 < loc_occ a lt loc}"
proof (induction lts arbitrary: idx)
  case Nil
  then show ?case by simp
next
  case (Cons t lts)
  from Cons.prems(1) obtain locs m m1 where locs: "listed a (lit ''locations'') t = Inr locs"
    and m: "map_of (setdefault t [] idx) t = Some m"
    and m1: "locations_loop a locs m = Inr m1"
    and rest: "loctype_loop a lts (AList.update t m1 (setdefault t [] idx)) = Inr idx'"
    by (auto split: sum.splits option.splits)
  show ?case
  proof (cases "lt = t")
    case True
    with Cons.prems(2) have "lt \<notin> set lts" by simp
    then have "map_of idx' lt = Some m1"
      using loctype_loop_other[OF rest] True by (simp add: update_conv')
    moreover have "entries_at idx lt = m"
      using m True by (auto simp: entries_at_def map_of_setdefault split: option.splits)
    ultimately show ?thesis
      using locations_loop_dom[OF m1] locs True by (simp add: loc_occ_def)
  next
    case False
    with Cons.prems have "lt \<in> set lts" "distinct lts" by auto
    from Cons.IH[OF rest this(2) this(1)] False show ?thesis
      by (simp add: entries_at_def update_conv' map_of_setdefault)
  qed
qed

lemma activities_loop_dom:
  "activities_loop acts idx = Inr idx' \<Longrightarrow> lt \<in> set LOCATION_TYPES \<Longrightarrow>
   dom (map_of (entries_at idx' lt)) =
     dom (map_of (entries_at idx lt)) \<union> {loc. \<exists>a\<in>set acts. 0 < loc_occ a lt loc}"
proof (induction acts arbitrary: idx)
  case Nil
  then show ?case by simp
next
  case (Cons a acts)
  from Cons.prems obtain idx1 where i1: "loctype_loop a LOCATION_TYPES idx = Inr idx1"
    and rest: "activities_loop acts idx1 = Inr idx'"
    by (auto split: sum.splits)
  have d: "distinct LOCATION_TYPES" by (simp add: LOCATION_TYPES_def)
  from loctype_loop_dom[OF i1 d Cons.prems(2)] obtain m1 where "map_of idx1 lt = Some m1"
    and "dom (map_of m1) = dom (map_of (entries_at idx lt)) \<union> {loc. 0 < loc_occ a lt loc}"
    by blast
  then have "dom (map_of (entries_at idx1 lt)) = dom (map_of (entries_at idx lt)) \<union> {loc. 0 < loc_occ a lt loc}"
    by (simp add: entries_at_def)
  with Cons.IH[OF rest Cons.prems(2)] show ?case by auto
qed

lemma loctype_loop_keys:
  "loctype_loop a lts idx = Inr idx' \<Longrightarrow> dom (map_of idx') = dom (map_of idx) \<union> set lts"
proof (induction lts arbitrary: idx)
  case Nil
  then show ?case by simp
next
  case (Cons t lts)
  from Cons.prems(1) obtain m1
    where rest: "loctype_loop a lts (AList.update t m1 (setdefault t [] idx)) = Inr idx'"
    by (auto split: sum.splits option.splits)
  from Cons.IH[OF rest] show ?case
    by (simp add: dom_update_setdefault)
qed

lemma activities_loop_keys:
  "activities_loop acts idx = Inr idx' \<Longrightarrow>
   dom (map_of idx') = dom (map_of idx) \<union> (if acts = [] then {} else set LOCATION_TYPES)"
proof (induction acts arbitrary: idx)
  case Nil
  then show ?case by simp
next
  case (Cons a acts)
  from Cons.prems obtain idx1 where i1: "loctype_loop a LOCATION_TYPES idx = Inr idx1"
    and rest: "activities_loop acts idx1 = Inr idx'"
    by (auto split: sum.splits)
  from loctype_loop_keys[OF i1] Cons.IH[OF rest] show ?case by auto
qed

subsection \<open>Sector types of an entry\<close>

lemma sectors_loop_dom:
  "sectors_loop a ts ss = Inr ss' \<Longrightarrow> dom (map_of ss') = dom (map_of ss) \<union> set ts"
proof (induction ts arbitrary: ss)
  case Nil
  then show ?case by simp
next
  case (Cons t ts)
  from Cons.prems obtain c1
    where rest: "sectors_loop a ts (AList.update t c1 (setdefault t [] ss)) = Inr ss'"
    by (auto split: sum.splits option.splits)
  from Cons.IH[OF rest] show ?case
    by (simp add: dom_update_setdefault)
qed

lemma entry_step_sectors:
  assumes "entry_step a en = Inr en'"
  shows "set SECTOR_TYPES \<subseteq> dom (map_of (sectors en'))"
proof -
  from assms obtain ss where "sectors_loop a SECTOR_TYPES (sectors en) = Inr ss" "sectors en' = ss"
    by (auto simp: entry_step_def split: sum.splits)
  with sectors_loop_dom[of a SECTOR_TYPES "sectors en" ss] show ?thesis by simp
qed

lemma location_step_typed:
  assumes "location_step a l m = Inr m'" "typed_entries m"
  shows "typed_entries m'"
proof (cases "truthy l")
  case False
  with assms show ?thesis by (simp add: location_step_skip)
next
  case True
  from assms(1) True obtain k en1 where k: "str_strip l = Inr k"
    and en1: "entry_step a (case map_of m k of None \<Rightarrow> \<lparr>activities = [], orgs = [], sectors = []\<rparr> | Some en \<Rightarrow> en) = Inr en1"
    and m': "map_of m' = (map_of m)(k \<mapsto> en1)"
    by (rule location_step_hit)
  from entry_step_sectors[OF en1] assms(2) m' show ?thesis
    by (auto simp: typed_entries_def)
qed

lemma locations_loop_typed:
  "locations_loop a locs m = Inr m' \<Longrightarrow> typed_entries m \<Longrightarrow> typed_entries m'"
  by (induction locs arbitrary: m) (auto split: sum.splits dest: location_step_typed)

lemma loctype_loop_typed:
  "loctype_loop a lts idx = Inr idx' \<Longrightarrow> (\<forall>lt m. map_of idx lt = Some m \<longrightarrow> typed_entries m) \<Longrightarrow>
   map_of idx' lt = Some m' \<Longrightarrow> typed_entries m'"
proof (induction lts arbitrary: idx)
  case Nil
  then show ?case by auto
next
  case (Cons t lts)
  from Cons.prems(1) obtain locs m m1 where m: "map_of (setdefault t [] idx) t = Some m"
    and m1: "locations_loop a locs m = Inr m1"
    and rest: "loctype_loop a lts (AList.update t m1 (setdefault t [] idx)) = Inr idx'"
    by (auto split: sum.splits option.splits)
  have "typed_entries m"
    using m Cons.prems(2) by (auto simp: map_of_setdefault typed_entries_def split: option.splits)
  with m1 have "typed_entries m1" by (rule locations_loop_typed)
  with Cons.prems(2)
  have "\<forall>lt m. map_of (AList.update t m1 (setdefault t [] idx)) lt = Some m \<longrightarrow> typed_entries m"
    by (auto simp: map_of_update_setdefault)
  from Cons.IH[OF rest this Cons.prems(3)] show ?case .
qed

lemma activities_loop_typed:
  "activities_loop acts idx = Inr idx' \<Longrightarrow> (\<forall>lt m. map_of idx lt = Some m \<longrightarrow> typed_entries m) \<Longrightarrow>
   map_of idx' lt = Some m' \<Longrightarrow> typed_entries m'"
proof (induction acts arbitrary: idx)
  case Nil
  then show ?case by auto
next
  case (Cons a acts)
  from Cons.prems(1) obtain idx1 where i1: "loctype_loop a LOCATION_TYPES idx = Inr idx1"
    and rest: "activities_loop acts idx1 = Inr idx'"
    by (auto split: sum.splits)
  from loctype_loop_typed[OF i1 Cons.prems(2)]
  have "\<forall>lt m. map_of idx1 lt = Some m \<longrightarrow> typed_entries m" by blast
  from Cons.IH[OF rest this Cons.prems(3)] show ?case .
qed

subsection \<open>Activities of an entry\<close>

lemma activities_at_memD:
  "r \<in> set (activities_at m loc) \<Longrightarrow> \<exists>en. map_of m loc = Some en \<and> r \<in> set (activities en)"
  by (cases "map_of m loc") (auto simp: activities_at_def)

lemma entries_at_SomeD:
  "map_of (entries_at idx lt) loc = Some en \<Longrightarrow> \<exists>m. map_of idx lt = Some m \<and> map_of m loc = Some en"
  by (cases "map_of idx lt") (auto simp: entries_at_def)

lemma entry_step_activities:
  "entry_step a en = Inr en' \<Longrightarrow> \<exists>r. ref_of a r \<and> activities en' = activities en @ [r]"
  by (auto simp: entry_step_def ref_of_def split: sum.splits)

lemma location_step_activities:
  assumes "location_step a l m = Inr m'"
  shows "\<exists>rs. activities_at m' loc = activities_at m loc @ rs \<and> (\<forall>r\<in>set rs. ref_of a r) \<and>
              (truthy l \<and> str_strip l = Inr loc \<longrightarrow> rs \<noteq> [])"
proof (cases "truthy l")
  case False
  with assms show ?thesis by (simp add: location_step_skip)
next
  case True
  from assms True obtain k en1 where k: "str_strip l = Inr k"
    and en1: "entry_step a (case map_of m k of None \<Rightarrow> \<lparr>activities = [], orgs = [], sectors = []\<rparr> | Some en \<Rightarrow> en) = Inr en1"
    and m': "map_of m' = (map_of m)(k \<mapsto> en1)"
    by (rule location_step_hit)
  show ?thesis
  proof (cases "k = loc")
    case False
    with True k m' show ?thesis by (simp add: activities_at_def)
  next
    case eq: True
    from entry_step_activities[OF en1] obtain r where "ref_of a r"
      "activities en1 = activities_at m k @ [r]"
      by (auto simp: activities_at_def split: option.splits)
    with eq m' show ?thesis by (simp add: activities_at_def)
  qed
qed

lemma locations_loop_activities:
  "locations_loop a locs m = Inr m' \<Longrightarrow>
   \<exists>rs. activities_at m' loc = activities_at m loc @ rs \<and> (\<forall>r\<in>set rs. ref_of a r) \<and>
        (0 < occurrences locs loc \<longrightarrow> rs \<noteq> [])"
proof (induction locs arbitrary: m)
  case Nil
  then have "m' = m" by simp
  then have "activities_at m' loc = activities_at m loc @ [] \<and> (\<forall>r\<in>set []. ref_of a r) \<and>
        (0 < occurrences [] loc \<longrightarrow> [] \<noteq> ([] :: activity_ref list))"
    by (simp add: occurrences_def)
  then show ?case by (rule exI)
next
  case (Cons l locs)
  from Cons.prems obtain m1 where m1: "location_step a l m = Inr m1"
    and rest: "locations_loop a locs m1 = Inr m'"
    by (auto split: sum.splits)
  from location_step_activities[OF m1, of loc] obtain rs1
    where 1: "activities_at m1 loc = activities_at m loc @ rs1" "\<forall>r\<in>set rs1. ref_of a r"
      "truthy l \<and> str_strip l = Inr loc \<longrightarrow> rs1 \<noteq> []" by (elim exE conjE)
  from Cons.IH[OF rest] obtain rs2
    where 2: "activities_at m' loc = activities_at m1 loc @ rs2" "\<forall>r\<in>set rs2. ref_of a r"
      "0 < occurrences locs loc \<longrightarrow> rs2 \<noteq> []" by (elim exE conjE)
  from 1(1) 2(1) have a: "activities_at m' loc = activities_at m loc @ (rs1 @ rs2)"
    by simp
  from 1(2) 2(2) have b: "\<forall>r\<in>set (rs1 @ rs2). ref_of a r"
    by auto
  have c: "0 < occurrences (l # locs) loc \<longrightarrow> rs1 @ rs2 \<noteq> []"
  proof
    assume "0 < occurrences (l # locs) loc"
    then have "(truthy l \<and> str_strip l = Inr loc) \<or> 0 < occurrences locs loc"
      by (simp add: occurrences_Cons split: if_splits)
    with 1(3) 2(3) show "rs1 @ rs2 \<noteq> []" by auto
  qed
  from a b c show ?case by (intro exI[of _ "rs1 @ rs2"] conjI)
qed

lemma loctype_loop_activities:
  "loctype_loop a lts idx = Inr idx' \<Longrightarrow> distinct lts \<Longrightarrow>
   \<exists>rs. activities_at (entries_at idx' lt) loc = activities_at (entries_at idx lt) loc @ rs \<and>
        (\<forall>r\<in>set rs. ref_of a r) \<and> (lt \<in> set lts \<and> 0 < loc_occ a lt loc \<longrightarrow> rs \<noteq> [])"
proof (induction lts arbitrary: idx)
  case Nil
  then show ?case by simp
next
  case (Cons t lts)
  from Cons.prems(1) obtain locs m m1 where locs: "listed a (lit ''locations'') t = Inr locs"
    and m: "map_of (setdefault t [] idx) t = Some m"
    and m1: "locations_loop a locs m = Inr m1"
    and rest: "loctype_loop a lts (AList.update t m1 (setdefault t [] idx)) = Inr idx'"
    by (auto split: sum.splits option.splits)
  from Cons.prems(2) have dl: "distinct lts" and tl: "t \<notin> set lts" by auto
  show ?case
  proof (cases "lt = t")
    case True
    with tl have "map_of idx' lt = Some m1"
      using loctype_loop_other[OF rest, of lt] by (simp add: update_conv')
    moreover have "entries_at idx lt = m"
      using m True by (auto simp: entries_at_def map_of_setdefault split: option.splits)
    ultimately show ?thesis
      using locations_loop_activities[OF m1, of loc] locs True
      by (simp add: entries_at_def loc_occ_def)
  next
    case False
    from Cons.IH[OF rest dl] False show ?thesis
      by (simp add: entries_at_def update_conv' map_of_setdefault)
  qed
qed

lemma activities_loop_activities:
  "activities_loop acts idx = Inr idx' \<Longrightarrow>
   \<exists>rs. activities_at (entries_at idx' lt) loc = activities_at (entries_at idx lt) loc @ rs \<and>
        (\<forall>a\<in>set acts. lt \<in> set LOCATION_TYPES \<and> 0 < loc_occ a lt loc \<longrightarrow> (\<exists>r\<in>set rs. ref_of a r))"
proof (induction acts arbitrary: idx)
  case Nil
  then show ?case by simp
next
  case (Cons a acts)
  from Cons.prems obtain idx1 where i1: "loctype_loop a LOCATION_TYPES idx = Inr idx1"
    and rest: "activities_loop acts idx1 = Inr idx'"
    by (auto split: sum.splits)
  have d: "distinct LOCATION_TYPES" by (simp add: LOCATION_TYPES_def)
  from loctype_loop_activities[OF i1 d, of lt loc] obtain rs1
    where 1: "activities_at (entries_at idx1 lt) loc = activities_at (entries_at idx lt) loc @ rs1"
      "\<forall>r\<in>set rs1. ref_of a r" "lt \<in> set LOCATION_TYPES \<and> 0 < loc_occ a lt loc \<longrightarrow> rs1 \<noteq> []"
    by blast
  from Cons.IH[OF rest] obtain rs2
    where 2: "activities_at (entries_at idx' lt) loc = activities_at (entries_at idx1 lt) loc @ rs2"
      "\<forall>a\<in>set acts. lt \<in> set LOCATION_TYPES \<and> 0 < loc_occ a lt loc \<longrightarrow> (\<exists>r\<in>set rs2. ref_of a r)"
    by blast
  from 1(2,3) have "lt \<in> set LOCATION_TYPES \<and> 0 < loc_occ a lt loc \<longrightarrow> (\<exists>r\<in>set rs1. ref_of a r)"
    by (cases rs1) auto
  with 1(1) 2 have "activities_at (entries_at idx' lt) loc = activities_at (entries_at idx lt) loc @ (rs1 @ rs2)"
    "\<forall>b\<in>set (a # acts). lt \<in> set LOCATION_TYPES \<and> 0 < loc_occ b lt loc \<longrightarrow> (\<exists>r\<in>set (rs1 @ rs2). ref_of b r)"
    by auto
  then show ?case by blast
qed

subsection \<open>The keys of a location type\<close>

lemma truthy_strip_iff:
  "truthy x \<and> str_strip x = Inr name \<longleftrightarrow> (\<exists>s. x = JStr s \<and> s \<noteq> [] \<and> name = strip s)"
  by (cases x) auto

lemma loc_occ_pos_iff:
  "0 < loc_occ a loctype loc \<longleftrightarrow>
     (\<exists>ls s. listed a (lit ''locations'') loctype = Inr ls \<and> JStr s \<in> set ls \<and> s \<noteq> [] \<and>
             loc = strip s)"
proof (cases "listed a (lit ''locations'') loctype")
  case (Inl e)
  then show ?thesis by (simp add: loc_occ_def)
next
  case (Inr xs)
  have "0 < occurrences xs loc \<longleftrightarrow> (\<exists>x\<in>set xs. \<exists>s. x = JStr s \<and> s \<noteq> [] \<and> loc = strip s)"
    unfolding occurrences_pos_iff truthy_strip_iff ..
  also have "\<dots> \<longleftrightarrow> (\<exists>s. JStr s \<in> set xs \<and> s \<noteq> [] \<and> loc = strip s)" by blast
  finally show ?thesis using Inr by (simp add: loc_occ_def)
qed

lemma build_index_location_keys:
  assumes "activities_loop acts [] = Inr idx" and "loctype \<in> set LOCATION_TYPES"
  shows "dom (map_of (entries_at idx loctype)) =
           {strip x | x. \<exists>b\<in>set acts. \<exists>ls. listed b (lit ''locations'') loctype = Inr ls \<and>
                           JStr x \<in> set ls \<and> x \<noteq> []}"
proof -
  have "dom (map_of (entries_at idx loctype)) = {loc. \<exists>a\<in>set acts. 0 < loc_occ a loctype loc}"
    using activities_loop_dom[OF assms] by (simp add: entries_at_def)
  also have "\<dots> = {strip x | x. \<exists>b\<in>set acts. \<exists>ls. listed b (lit ''locations'') loctype = Inr ls \<and>
                           JStr x \<in> set ls \<and> x \<noteq> []}"
    unfolding loc_occ_pos_iff by blast
  finally show ?thesis .
qed

subsection \<open>Stripping\<close>

lemma rev_dropWhile_takeWhile:
  "rev (dropWhile P (rev d)) @ rev (takeWhile P (rev d)) = d"
proof -
  have "rev (takeWhile P (rev d) @ dropWhile P (rev d)) = d"
    by (simp only: takeWhile_dropWhile_id rev_rev_ident)
  then show ?thesis by (simp only: rev_append)
qed

lemma dropWhile_strip:
  "dropWhile py_isspace s = strip s @ rev (takeWhile py_isspace (rev (dropWhile py_isspace s)))"
  unfolding strip_def by (simp only: rev_dropWhile_takeWhile)

lemma strip_decomp:
  "\<exists>pre post. s = pre @ strip s @ post \<and> list_all py_isspace pre \<and> list_all py_isspace post"
proof -
  let ?d = "dropWhile py_isspace s"
  have "s = takeWhile py_isspace s @ ?d" by simp
  then have "s = takeWhile py_isspace s @ strip s @ rev (takeWhile py_isspace (rev ?d))"
    using dropWhile_strip[of s] by simp
  moreover have "list_all py_isspace (takeWhile py_isspace s)"
    by (auto simp: list_all_iff dest: set_takeWhileD)
  moreover have "list_all py_isspace (rev (takeWhile py_isspace (rev ?d)))"
    by (auto simp: list_all_iff dest: set_takeWhileD)
  ultimately show ?thesis by blast
qed

lemma strip_ends:
  assumes "strip s \<noteq> []"
  shows "\<not> py_isspace (hd (strip s)) \<and> \<not> py_isspace (last (strip s))"
proof -
  let ?d = "dropWhile py_isspace s"
  let ?e = "dropWhile py_isspace (rev ?d)"
  from assms have e: "?e \<noteq> []" by (simp add: strip_def)
  then have l: "\<not> py_isspace (hd ?e)" by (rule hd_dropWhile)
  have "last (strip s) = hd ?e" using e by (simp add: strip_def last_rev)
  with l have 1: "\<not> py_isspace (last (strip s))" by simp
  have d: "?d \<noteq> []"
  proof
    assume empty: "?d = []"
    have "?e = dropWhile py_isspace (rev [])" by (simp only: empty)
    with e show False by simp
  qed
  then have hd: "\<not> py_isspace (hd ?d)" by (rule hd_dropWhile)
  from assms have "hd (strip s @ rev (takeWhile py_isspace (rev ?d))) = hd (strip s)"
    by (rule hd_append2)
  then have "hd ?d = hd (strip s)" using dropWhile_strip[of s] by simp
  with hd have "\<not> py_isspace (hd (strip s))" by simp
  with 1 show ?thesis by simp
qed

subsection \<open>Evaluating the examples\<close>

lemmas index_eval = build_index_def LOCATION_TYPES_def ROLES_def SECTOR_TYPES_def listed_def
  location_step_def entry_step_def increment_def setdefault_def strip_def py_isspace_def
  example_activity_def example_ref_def example_index_def

lemmas occ_eval = loc_occ_def org_occ_def occurrences_def listed_def ROLES_def strip_def
  py_isspace_def example_activity_def

subsection \<open>The claims about the index\<close>

text \<open>
  C2, as the code has it. The key of a location type is added while an activity is
  processed (line 40), so the index of an empty activity list is empty: no location type
  is a key. When the script completes on a non-empty list, every location type is a key,
  and its mapping is empty exactly when no activity lists a truthy location of that type.
\<close>

theorem index_keys:
  "build_index (JArr []) = Inr [] \<and>
   (build_index (JArr (a # acts)) = Inr idx \<longrightarrow> loctype \<in> set LOCATION_TYPES \<longrightarrow>
      (\<exists>m. map_of idx loctype = Some m \<and>
           (m = [] \<longleftrightarrow> (\<forall>b\<in>set (a # acts). \<forall>loc. loc_occ b loctype loc = 0))))"
proof (intro conjI impI)
  show "build_index (JArr []) = Inr []" by (simp add: build_index_def)
next
  assume b: "build_index (JArr (a # acts)) = Inr idx" and lt: "loctype \<in> set LOCATION_TYPES"
  from b have loop: "activities_loop (a # acts) [] = Inr idx" by (simp add: build_index_def)
  from activities_loop_keys[OF loop] lt obtain m where m: "map_of idx loctype = Some m"
    by (auto simp: dom_def)
  from activities_loop_dom[OF loop lt] m
  have "dom (map_of m) = {loc. \<exists>b\<in>set (a # acts). 0 < loc_occ b loctype loc}"
    by (simp add: entries_at_def)
  then have "m = [] \<longleftrightarrow> (\<forall>b\<in>set (a # acts). \<forall>loc. loc_occ b loctype loc = 0)"
    unfolding dom_map_of_empty_iff[symmetric] by auto
  with m show "\<exists>m. map_of idx loctype = Some m \<and>
           (m = [] \<longleftrightarrow> (\<forall>b\<in>set (a # acts). \<forall>loc. loc_occ b loctype loc = 0))"
    by blast
qed

text \<open>
  The theorem at a single activity with one \<^verbatim>\<open>admin1\<close> location: \<^verbatim>\<open>admin2\<close> is a key of
  the index, mapped to the empty mapping.
\<close>

theorem index_keys_witness:
  "build_index (JArr [example_activity [JStr (lit ''Kabul'')] []]) = Inr (example_index (lit ''Kabul'') [example_ref] [])
   \<and> map_of (example_index (lit ''Kabul'') [example_ref] []) (lit ''admin2'') = Some []
   \<and> (\<forall>loc. loc_occ (example_activity [JStr (lit ''Kabul'')] []) (lit ''admin2'') loc = 0)"
proof -
  have h: "build_index (JArr (example_activity [JStr (lit ''Kabul'')] [] # [])) = Inr (example_index (lit ''Kabul'') [example_ref] [])"
    by (simp add: index_eval)
  have t: "lit ''admin2'' \<in> set LOCATION_TYPES" by (simp add: LOCATION_TYPES_def)
  from index_keys[of "example_activity [JStr (lit ''Kabul'')] []" "[]" "example_index (lit ''Kabul'') [example_ref] []" "lit ''admin2''"] h t
  show ?thesis by (simp add: example_index_def)
qed

text \<open>
  C2 as stated fails: on the empty activity list the index has no key at all, so
  \<^verbatim>\<open>admin1\<close> is absent rather than mapped to an empty mapping.
\<close>

theorem empty_run_counterexample:
  "build_index (JArr []) = Inr [] \<and> map_of ([] :: index) (lit ''admin1'') = None"
  by (simp add: build_index_def)

text \<open>
  C3 at a whitespace-only location and a whitespace-only org: neither is skipped. The
  test \<^verbatim>\<open>if not location\<close> runs before the strip, so the location is indexed under the
  empty key, and the org is counted under the empty name.
\<close>

theorem blank_location_indexed:
  "build_index (JArr [example_activity [JStr (lit ''   '')] [JStr (lit '' '')]]) =
     Inr (example_index [] [example_ref] [([], 1)])"
  by (simp add: index_eval)

text \<open>
  C8, as the code has it. The org loop runs once for every raw location of the activity,
  so in the index of two activities the count of an org name at a location is the number of
  raw org strings (over all roles) that strip to the name, times the number of raw
  locations of that type that strip to the location, summed over the two activities. When
  each activity lists the location once, this is the sum of the org's occurrences.
\<close>

theorem org_counts:
  assumes "build_index (JArr [a, b]) = Inr idx" and "loctype \<in> set LOCATION_TYPES"
    and "0 < loc_occ a loctype loc" and "0 < org_occ a name"
    and "0 < loc_occ b loctype loc" and "0 < org_occ b name"
  shows "org_counter idx loctype loc name =
           Some (int (loc_occ a loctype loc * org_occ a name + loc_occ b loctype loc * org_occ b name))
         \<and> (loc_occ a loctype loc = 1 \<and> loc_occ b loctype loc = 1 \<longrightarrow>
              org_counter idx loctype loc name = Some (int (org_occ a name + org_occ b name)))"
proof -
  from assms(1) have "activities_loop [a, b] [] = Inr idx" by (simp add: build_index_def)
  from activities_loop_bumped[OF this assms(2), of loc name] assms(3,4)
  have "org_counter idx loctype loc name =
           Some (int (loc_occ a loctype loc * org_occ a name + loc_occ b loctype loc * org_occ b name))"
    by (simp add: bumped_def org_counter_def entries_at_def orgs_at_def count_of_def)
  then show ?thesis by auto
qed

text \<open>
  The theorem at two activities that both list the location \<^verbatim>\<open>K\<close> once and the org
  \<^verbatim>\<open>Oxfam\<close> once: the count is 2.
\<close>

theorem org_counts_witness:
  "build_index (JArr [example_activity [JStr (lit ''K'')] [JStr (lit ''Oxfam'')],
                      example_activity [JStr (lit ''K '')] [JStr (lit ''Oxfam''), JStr (lit ''CARE'')]]) =
     Inr (example_index (lit ''K'') [example_ref, example_ref] [(lit ''Oxfam'', 2), (lit ''CARE'', 1)])
   \<and> org_counter (example_index (lit ''K'') [example_ref, example_ref] [(lit ''Oxfam'', 2), (lit ''CARE'', 1)])
       (lit ''admin1'') (lit ''K'') (lit ''Oxfam'') = Some 2"
proof -
  let ?a = "example_activity [JStr (lit ''K'')] [JStr (lit ''Oxfam'')]"
  let ?b = "example_activity [JStr (lit ''K '')] [JStr (lit ''Oxfam''), JStr (lit ''CARE'')]"
  let ?idx = "example_index (lit ''K'') [example_ref, example_ref] [(lit ''Oxfam'', 2), (lit ''CARE'', 1)]"
  have h1: "build_index (JArr [?a, ?b]) = Inr ?idx"
    by (simp add: index_eval)
  have h2: "lit ''admin1'' \<in> set LOCATION_TYPES" by (simp add: LOCATION_TYPES_def)
  have a1: "loc_occ ?a (lit ''admin1'') (lit ''K'') = 1" by (simp add: occ_eval)
  have a2: "org_occ ?a (lit ''Oxfam'') = 1" by (simp add: occ_eval)
  have b1: "loc_occ ?b (lit ''admin1'') (lit ''K'') = 1" by (simp add: occ_eval)
  have b2: "org_occ ?b (lit ''Oxfam'') = 1" by (simp add: occ_eval)
  from org_counts[OF h1 h2, of "lit ''K''" "lit ''Oxfam''"] a1 a2 b1 b2 h1
  show ?thesis by simp
qed

text \<open>
  C8 as stated fails when an activity lists the location twice: the first activity lists
  \<^verbatim>\<open>K\<close> and \<^verbatim>\<open>K \<close>, both list \<^verbatim>\<open>Oxfam\<close> once, and the count is 3, not 2.
\<close>

theorem org_counts_counterexample:
  "map_sum id (\<lambda>idx. org_counter idx (lit ''admin1'') (lit ''K'') (lit ''Oxfam''))
     (build_index (JArr [example_activity [JStr (lit ''K''), JStr (lit ''K '')] [JStr (lit ''Oxfam'')],
                         example_activity [JStr (lit ''K'')] [JStr (lit ''Oxfam'')]]))
     = Inr (Some 3)
   \<and> org_occ (example_activity [JStr (lit ''K''), JStr (lit ''K '')] [JStr (lit ''Oxfam'')]) (lit ''Oxfam'')
     + org_occ (example_activity [JStr (lit ''K'')] [JStr (lit ''Oxfam'')]) (lit ''Oxfam'') = 2
   \<and> loc_occ (example_activity [JStr (lit ''K''), JStr (lit ''K '')] [JStr (lit ''Oxfam'')])
         (lit ''admin1'') (lit ''K'') = 2
   \<and> loc_occ (example_activity [JStr (lit ''K'')] [JStr (lit ''Oxfam'')]) (lit ''admin1'') (lit ''K'') = 1"
  by (simp add: index_eval loc_occ_def org_occ_def occurrences_def org_counter_def orgs_at_def
      entries_at_def)

text \<open>
  C9. When the script completes, every non-empty raw location string \<open>s\<close> that an
  activity lists under a location type is recorded under the key \<open>strip s\<close> of that type:
  the entry at that key holds the activity's record. The keys of the type are these and
  no others: the set of keys is the set of the \<open>strip x\<close> for the non-empty raw strings
  \<open>x\<close> that the activities list under the type. \<open>strip s\<close> is \<open>s\<close> without a whitespace
  prefix and a whitespace suffix, and neither starts nor ends with whitespace: nothing
  inside the string is changed.
\<close>

theorem location_key:
  assumes "build_index file = Inr idx" and "iter file = Inr acts" and "a \<in> set acts"
    and "loctype \<in> set LOCATION_TYPES"
    and "listed a (lit ''locations'') loctype = Inr locs" and "JStr s \<in> set locs" and "s \<noteq> []"
  shows "(\<exists>m en r. map_of idx loctype = Some m \<and> map_of m (strip s) = Some en \<and>
                   r \<in> set (activities en) \<and> ref_of a r \<and>
                   dom (map_of m) =
                     {strip x | x. \<exists>b\<in>set acts. \<exists>ls. listed b (lit ''locations'') loctype = Inr ls \<and>
                                     JStr x \<in> set ls \<and> x \<noteq> []})
         \<and> (\<exists>pre post. s = pre @ strip s @ post \<and> list_all py_isspace pre \<and> list_all py_isspace post)
         \<and> (strip s = [] \<or> \<not> py_isspace (hd (strip s)) \<and> \<not> py_isspace (last (strip s)))"
proof -
  from assms(1,2) have loop: "activities_loop acts [] = Inr idx" by (simp add: build_index_def)
  from assms(6,7) have "\<exists>x\<in>set locs. truthy x \<and> str_strip x = Inr (strip s)"
    by (intro bexI[of _ "JStr s"]) simp_all
  then have "0 < occurrences locs (strip s)"
    by (simp add: occurrences_pos_iff)
  with assms(5) have pos: "0 < loc_occ a loctype (strip s)"
    by (simp add: loc_occ_def)
  from activities_loop_activities[OF loop, of loctype "strip s"] obtain rs
    where rs: "activities_at (entries_at idx loctype) (strip s) = rs"
      "\<forall>a\<in>set acts. loctype \<in> set LOCATION_TYPES \<and> 0 < loc_occ a loctype (strip s) \<longrightarrow>
         (\<exists>r\<in>set rs. ref_of a r)"
    by (auto simp: entries_at_def activities_at_def)
  from rs(2) assms(3,4) pos obtain r where "r \<in> set rs" "ref_of a r" by blast
  with rs(1) have r: "r \<in> set (activities_at (entries_at idx loctype) (strip s))" "ref_of a r"
    by simp_all
  from activities_at_memD[OF r(1)] obtain en
    where en: "map_of (entries_at idx loctype) (strip s) = Some en" "r \<in> set (activities en)"
    by blast
  from entries_at_SomeD[OF en(1)] obtain m
    where m: "map_of idx loctype = Some m" "map_of m (strip s) = Some en"
    by blast
  from m(1) have "entries_at idx loctype = m" by (simp add: entries_at_def)
  with build_index_location_keys[OF loop assms(4)]
  have keys: "dom (map_of m) =
                {strip x | x. \<exists>b\<in>set acts. \<exists>ls. listed b (lit ''locations'') loctype = Inr ls \<and>
                                JStr x \<in> set ls \<and> x \<noteq> []}"
    by simp
  from m r(2) en(2) keys
  have 1: "\<exists>m en r. map_of idx loctype = Some m \<and> map_of m (strip s) = Some en \<and>
                   r \<in> set (activities en) \<and> ref_of a r \<and>
                   dom (map_of m) =
                     {strip x | x. \<exists>b\<in>set acts. \<exists>ls. listed b (lit ''locations'') loctype = Inr ls \<and>
                                     JStr x \<in> set ls \<and> x \<noteq> []}"
    by blast
  from strip_decomp[of s] have 2: "\<exists>pre post. s = pre @ strip s @ post \<and> list_all py_isspace pre \<and> list_all py_isspace post"
    by blast
  from strip_ends[of s] have 3: "strip s = [] \<or> \<not> py_isspace (hd (strip s)) \<and> \<not> py_isspace (last (strip s))"
    by blast
  from 1 2 3 show ?thesis by (intro conjI)
qed

text \<open>
  The theorem at one activity with the raw location \<^verbatim>\<open>Capital  City \<close>: the only key of
  \<^verbatim>\<open>admin1\<close> is \<^verbatim>\<open>Capital  City\<close>, and the entry there holds the activity's record.
\<close>

theorem location_key_witness:
  "build_index (JArr [example_activity [JStr (lit ''Capital  City '')] []]) =
     Inr (example_index (lit ''Capital  City'') [example_ref] [])
   \<and> strip (lit ''Capital  City '') = lit ''Capital  City''
   \<and> (\<exists>m en r. map_of (example_index (lit ''Capital  City'') [example_ref] []) (lit ''admin1'') = Some m \<and>
          map_of m (lit ''Capital  City'') = Some en \<and> r \<in> set (activities en) \<and>
          ref_of (example_activity [JStr (lit ''Capital  City '')] []) r \<and>
          dom (map_of m) = {lit ''Capital  City''})"
proof -
  let ?a = "example_activity [JStr (lit ''Capital  City '')] []"
  have s: "strip (lit ''Capital  City '') = lit ''Capital  City''"
    by (simp add: strip_def py_isspace_def)
  have h1: "build_index (JArr [?a]) = Inr (example_index (lit ''Capital  City'') [example_ref] [])"
    by (simp add: index_eval)
  have h2: "iter (JArr [?a]) = Inr [?a]" by simp
  have h3: "?a \<in> set [?a]" by simp
  have h4: "lit ''admin1'' \<in> set LOCATION_TYPES" by (simp add: LOCATION_TYPES_def)
  have h5: "listed ?a (lit ''locations'') (lit ''admin1'') = Inr [JStr (lit ''Capital  City '')]"
    by (simp add: listed_def example_activity_def)
  have h6: "JStr (lit ''Capital  City '') \<in> set [JStr (lit ''Capital  City '')]" by simp
  have h7: "lit ''Capital  City '' \<noteq> []" by simp
  have k: "{strip x | x. \<exists>b\<in>set [?a]. \<exists>ls. listed b (lit ''locations'') (lit ''admin1'') = Inr ls \<and>
                          JStr x \<in> set ls \<and> x \<noteq> []} = {lit ''Capital  City''}"
    unfolding set_simps ball_simps bex_simps h5 using s by auto
  from location_key[OF h1 h2 h3 h4 h5 h6 h7, unfolded k] s h1 show ?thesis by simp
qed

text \<open>
  C10. When the script completes, every entry of the index has a counter for every sector
  type, whatever sectors the activities declare.
\<close>

theorem sector_types_present:
  assumes "build_index file = Inr idx" "map_of idx loctype = Some m" "map_of m loc = Some en"
    "t \<in> set SECTOR_TYPES"
  shows "\<exists>c. map_of (sectors en) t = Some c"
proof -
  from assms(1) obtain acts where "activities_loop acts [] = Inr idx"
    by (auto simp: build_index_def split: sum.splits)
  then have "typed_entries m"
    using _ assms(2) by (rule activities_loop_typed) simp
  with assms(3,4) show ?thesis by (auto simp: typed_entries_def)
qed

text \<open>
  The theorem at an activity without sectors: its entry has a (empty) counter for
  \<^verbatim>\<open>humanitarian\<close>.
\<close>

theorem sector_types_present_witness:
  "build_index (JArr [example_activity [JStr (lit ''Kabul'')] []]) = Inr (example_index (lit ''Kabul'') [example_ref] [])
   \<and> (\<exists>c. map_of [(lit ''dac'', ([] :: counter)), (lit ''humanitarian'', [])] (lit ''humanitarian'') = Some c)"
proof -
  let ?en = "\<lparr>activities = [example_ref], orgs = ([] :: counter),
              sectors = [(lit ''dac'', []), (lit ''humanitarian'', [])]\<rparr>"
  have h1: "build_index (JArr [example_activity [JStr (lit ''Kabul'')] []]) = Inr (example_index (lit ''Kabul'') [example_ref] [])"
    by (simp add: index_eval)
  have h2: "map_of (example_index (lit ''Kabul'') [example_ref] []) (lit ''admin1'') = Some [(lit ''Kabul'', ?en)]"
    by (simp add: example_index_def)
  have h3: "map_of [(lit ''Kabul'', ?en)] (lit ''Kabul'') = Some ?en" by simp
  have h4: "lit ''humanitarian'' \<in> set SECTOR_TYPES" by (simp add: SECTOR_TYPES_def)
  from sector_types_present[OF h1 h2 h3 h4] h1 show ?thesis by simp
qed

section \<open>Properties of the common functions\<close>

subsection \<open>Tokens\<close>

lemma sub_runs_set: "c \<in> set (sub_runs p s) \<Longrightarrow> (c \<in> set s \<and> \<not> p c) \<or> c = 32"
proof (induction p s rule: sub_runs.induct)
  case (1 p)
  then show ?case by simp
next
  case (2 p x xs)
  then show ?case by (auto split: if_splits dest: set_dropWhileD)
qed

lemma sub_runs_hd: "s \<noteq> [] \<Longrightarrow> \<not> p (hd s) \<Longrightarrow> sub_runs p s \<noteq> [] \<and> hd (sub_runs p s) = hd s"
  by (cases s) auto

lemma sub_runs_Nil_iff: "sub_runs p s = [] \<longleftrightarrow> s = []"
  by (cases s) auto

lemma single_spaces_Cons:
  "single_spaces (x # t) \<longleftrightarrow> (t \<noteq> [] \<longrightarrow> \<not> (x = 32 \<and> hd t = 32)) \<and> single_spaces t"
  by (cases t) auto

lemma sub_runs_after_run:
  assumes "p 32" and "sub_runs p (dropWhile p cs) \<noteq> []"
  shows "hd (sub_runs p (dropWhile p cs)) \<noteq> 32"
proof -
  from assms(2) have ne: "dropWhile p cs \<noteq> []"
    unfolding sub_runs_Nil_iff .
  then have nq: "\<not> p (hd (dropWhile p cs))" by (rule hd_dropWhile)
  with ne have "hd (sub_runs p (dropWhile p cs)) = hd (dropWhile p cs)"
    using sub_runs_hd[of "dropWhile p cs" p] by blast
  with nq assms(1) show ?thesis by metis
qed

lemma sub_runs_single:
  assumes "p 32"
  shows "single_spaces (sub_runs p s)"
  using assms
proof (induction p s rule: sub_runs.induct)
  case (1 p)
  then show ?case by simp
next
  case (2 q c cs)
  show ?case
  proof (cases "q c")
    case True
    with 2 have "single_spaces (sub_runs q (dropWhile q cs))" by simp
    with True sub_runs_after_run[of q cs] "2.prems" show ?thesis
      by (simp add: single_spaces_Cons)
  next
    case False
    with 2 have ih: "single_spaces (sub_runs q cs)" by simp
    from False "2.prems" have "c \<noteq> 32" by auto
    with False ih show ?thesis by (simp add: single_spaces_Cons)
  qed
qed

lemma sub_runs_id:
  assumes "p 32"
  shows "\<forall>c\<in>set t. p c \<longrightarrow> c = 32 \<Longrightarrow> single_spaces t \<Longrightarrow> sub_runs p t = t"
proof (induction t)
  case Nil
  then show ?case by simp
next
  case (Cons c cs)
  from Cons.prems have ih: "sub_runs p cs = cs" 
    by (intro Cons.IH) (auto simp: single_spaces_Cons)
  show ?case
  proof (cases "p c")
    case False
    with ih show ?thesis by simp
  next
    case True
    with Cons.prems(1) have c: "c = 32" by simp
    have "dropWhile p cs = cs"
    proof (cases cs)
      case Nil
      then show ?thesis by simp
    next
      case (Cons d ds)
      with Cons.prems c have "d \<noteq> 32" "p d \<longrightarrow> d = 32" by (auto simp: single_spaces_Cons)
      then have "\<not> p d" by blast
      with Cons show ?thesis by simp
    qed
    with True c ih show ?thesis by simp
  qed
qed

lemma single_spaces_append_right: "single_spaces (xs @ ys) \<Longrightarrow> single_spaces ys"
  by (induction xs) (auto simp: single_spaces_Cons)

lemma single_spaces_append_left: "single_spaces (xs @ ys) \<Longrightarrow> single_spaces xs"
  by (induction xs) (auto simp: single_spaces_Cons)

lemma single_spaces_append:
  "single_spaces xs \<Longrightarrow> single_spaces ys \<Longrightarrow> xs \<noteq> [] \<Longrightarrow> ys = [] \<or> last xs \<noteq> 32 \<or> hd ys \<noteq> 32 \<Longrightarrow>
   single_spaces (xs @ ys)"
proof (induction xs)
  case Nil
  then show ?case by simp
next
  case (Cons a xs)
  show ?case
  proof (cases "xs = []")
    case True
    with Cons.prems show ?thesis by (auto simp: single_spaces_Cons)
  next
    case False
    with Cons.prems have "single_spaces xs" "ys = [] \<or> last xs \<noteq> 32 \<or> hd ys \<noteq> 32"
      by (auto simp: single_spaces_Cons)
    with Cons.IH Cons.prems(2) False have "single_spaces (xs @ ys)" by blast
    with False Cons.prems(1) show ?thesis by (auto simp: single_spaces_Cons)
  qed
qed

lemma single_spaces_no_space: "32 \<notin> set xs \<Longrightarrow> single_spaces xs"
  by (induction xs) (auto simp: single_spaces_Cons)

lemma strip_id:
  assumes "t = [] \<or> (\<not> py_isspace (hd t) \<and> \<not> py_isspace (last t))"
  shows "strip t = t"
proof (cases "t = []")
  case True
  then show ?thesis by (simp add: strip_def)
next
  case False
  with assms have h: "\<not> py_isspace (hd t)" and l: "\<not> py_isspace (last t)" by auto
  from False h have 1: "dropWhile py_isspace t = t" by (cases t) auto
  from False l have "\<not> py_isspace (hd (rev t))" by (simp add: hd_rev)
  with False have 2: "dropWhile py_isspace (rev t) = rev t" by (cases "rev t") auto
  show ?thesis unfolding strip_def 1 2 by simp
qed

lemma strip_subset: "set (strip l) \<subseteq> set l"
proof -
  from strip_decomp[of l] obtain pre post where "l = pre @ strip l @ post" by blast
  then have "set l = set pre \<union> set (strip l) \<union> set post" by (metis set_append Un_assoc)
  then show ?thesis by blast
qed

lemma lower_from_set:
  "d \<in> set (lower_from U before w) \<Longrightarrow>
   \<exists>c\<in>set w. \<exists>b a. d \<in> set (lower_form U b c a)"
proof (induction w arbitrary: before)
  case Nil
  then show ?case by simp
next
  case (Cons c cs)
  from Cons.prems have "d \<in> set (lower_form U before c cs) \<or> d \<in> set (lower_from U (before @ [c]) cs)"
    by simp
  then show ?case
  proof
    assume "d \<in> set (lower_form U before c cs)"
    then show ?thesis by auto
  next
    assume "d \<in> set (lower_from U (before @ [c]) cs)"
    from Cons.IH[OF this] show ?thesis by auto
  qed
qed

lemma lower_from_fixed:
  "\<forall>d\<in>set t. \<forall>b a. lower_form U b d a = [d] \<Longrightarrow> lower_from U before t = t"
  by (induction t arbitrary: before) simp_all

lemma lower_from_single:
  assumes sp: "\<And>b a. lower_form U b 32 a = [32]"
    and wd: "\<And>b c a. isword U c \<Longrightarrow> lower_form U b c a \<noteq> [] \<and> 32 \<notin> set (lower_form U b c a)"
    and nw: "\<not> isword U 32"
  shows "\<forall>c\<in>set w. isword U c \<or> c = 32 \<Longrightarrow> single_spaces w \<Longrightarrow>
         single_spaces (lower_from U before w) \<and>
         (w \<noteq> [] \<longrightarrow> lower_from U before w \<noteq> [] \<and> (hd (lower_from U before w) = 32 \<longleftrightarrow> hd w = 32))"
proof (induction w arbitrary: before)
  case Nil
  then show ?case by simp
next
  case (Cons c cs)
  let ?f = "lower_form U before c cs"
  let ?r = "lower_from U (before @ [c]) cs"
  from Cons.prems have cs: "\<forall>c\<in>set cs. isword U c \<or> c = 32" "single_spaces cs"
    by (auto simp: single_spaces_Cons)
  from Cons.IH[OF cs] have ih1: "single_spaces ?r"
    and ih2: "cs \<noteq> [] \<longrightarrow> ?r \<noteq> [] \<and> (hd ?r = 32 \<longleftrightarrow> hd cs = 32)"
    by simp_all
  have e: "cs = [] \<Longrightarrow> ?r = []" by simp
  show ?case
  proof (cases "c = 32")
    case True
    then have f: "?f = [32]" by (simp add: sp)
    from True Cons.prems(2) have "cs \<noteq> [] \<longrightarrow> hd cs \<noteq> 32" by (simp add: single_spaces_Cons)
    with ih2 e have "?r = [] \<or> hd ?r \<noteq> 32" by blast
    with ih1 have "single_spaces (32 # ?r)" by (auto simp: single_spaces_Cons)
    with True f show ?thesis by simp
  next
    case False
    with Cons.prems(1) have w: "isword U c" by simp
    from wd[OF w] have f: "?f \<noteq> []" "32 \<notin> set ?f" by simp_all
    from f have "last ?f \<noteq> 32" "hd ?f \<noteq> 32" by (metis last_in_set, metis hd_in_set)
    moreover from f(2) have "single_spaces ?f" by (rule single_spaces_no_space)
    ultimately have "single_spaces (?f @ ?r)" "hd (?f @ ?r) \<noteq> 32" "?f @ ?r \<noteq> []"
      using ih1 f(1) by (simp_all add: single_spaces_append)
    with False show ?thesis by simp
  qed
qed

lemma make_token_parts:
  assumes "unicode_facts U"
  shows "(\<forall>d\<in>set (make_token U s). \<forall>b a. lower_form U b d a = [d]) \<and>
         single_spaces (make_token U s) \<and>
         (make_token U s = [] \<or> \<not> py_isspace (hd (make_token U s)) \<and> \<not> py_isspace (last (make_token U s)))"
proof -
  let ?w = "sub_runs (\<lambda>c. \<not> isword U c) s"
  let ?l = "lower_from U [] ?w"
  from assms have nw: "\<not> isword U 32"
    and sp: "\<And>b a. lower_form U b 32 a = [32]"
    and wd: "\<And>b c a. isword U c \<Longrightarrow> lower_form U b c a \<noteq> [] \<and> 32 \<notin> set (lower_form U b c a)"
    and fx: "\<And>b c a d b' a'. d \<in> set (lower_form U b c a) \<Longrightarrow> lower_form U b' d a' = [d]"
    unfolding unicode_facts_def by blast+
  have t: "make_token U s = strip ?l" by (simp add: make_token_def py_lower_def)
  have w1: "\<forall>c\<in>set ?w. isword U c \<or> c = 32" by (auto dest: sub_runs_set)
  have w2: "single_spaces ?w" using nw by (intro sub_runs_single) simp
  from lower_from_single[OF sp wd nw w1 w2] have l2: "single_spaces ?l" by simp
  have l1: "\<forall>d\<in>set ?l. \<forall>b a. lower_form U b d a = [d]"
    by (auto dest!: lower_from_set intro: fx)
  from l1 strip_subset[of ?l] have t1: "\<forall>d\<in>set (strip ?l). \<forall>b a. lower_form U b d a = [d]"
    by blast
  from strip_decomp[of ?l] obtain pre post where dec: "?l = pre @ strip ?l @ post" by blast
  with l2 have t2: "single_spaces (strip ?l)"
    by (metis single_spaces_append_left single_spaces_append_right)
  from t1 t2 strip_ends[of ?l] show ?thesis unfolding t by blast
qed

lemma make_token_words:
  assumes "unicode_facts U" and "lowers_to_words U s"
  shows "\<forall>d\<in>set (make_token U s). d = 32 \<or> isword U d"
proof
  fix d assume "d \<in> set (make_token U s)"
  let ?w = "sub_runs (\<lambda>c. \<not> isword U c) s"
  from assms(1) have sp: "\<And>b a. lower_form U b 32 a = [32]"
    unfolding unicode_facts_def by blast
  from \<open>d \<in> set (make_token U s)\<close> have "d \<in> set (lower_from U [] ?w)"
    using strip_subset by (auto simp: make_token_def py_lower_def)
  from lower_from_set[OF this] obtain c b a where c: "c \<in> set ?w" and d: "d \<in> set (lower_form U b c a)"
    by blast
  from sub_runs_set[OF c] show "d = 32 \<or> isword U d"
  proof
    assume "c \<in> set s \<and> \<not> \<not> isword U c"
    with assms(2) d show ?thesis unfolding lowers_to_words_def by blast
  next
    assume "c = 32"
    with d sp show ?thesis by simp
  qed
qed

lemma make_token_fixed:
  assumes nw: "\<not> isword U 32"
    and "\<forall>d\<in>set t. \<forall>b a. lower_form U b d a = [d]"
    and "\<forall>d\<in>set t. d = 32 \<or> isword U d"
    and "single_spaces t"
    and "t = [] \<or> \<not> py_isspace (hd t) \<and> \<not> py_isspace (last t)"
  shows "make_token U t = t"
proof -
  from assms(3) have "\<forall>c\<in>set t. \<not> isword U c \<longrightarrow> c = 32" by blast
  with nw assms(4) have "sub_runs (\<lambda>c. \<not> isword U c) t = t"
    by (intro sub_runs_id) simp_all
  moreover from assms(2) have "py_lower U t = t" unfolding py_lower_def by (rule lower_from_fixed)
  moreover from assms(5) have "strip t = t" by (rule strip_id)
  ultimately show ?thesis by (simp add: make_token_def)
qed

lemma sample_tables_facts: "unicode_facts sample_tables"
  unfolding unicode_facts_def sample_tables_def
  by (auto simp: sample_isword_def sample_lower_form_def split: if_splits)

lemmas token_eval = make_token_def py_lower_def sample_tables_def sample_lower_form_def
  sample_isword_def strip_def py_isspace_def

text \<open>
  C6, as the code has it, for tables with the four facts of Python's. For every string
  the token is lowercase (lowercasing it changes nothing), has no two spaces in a row and
  no space at either end. When every word character of the string has a lowercase form
  made of word characters, the token has only word characters and spaces, and tokenizing
  the token gives the token back.
\<close>

theorem make_token_properties:
  assumes "unicode_facts U"
  shows "py_lower U (make_token U s) = make_token U s \<and>
         single_spaces (make_token U s) \<and>
         (make_token U s = [] \<or> hd (make_token U s) \<noteq> 32 \<and> last (make_token U s) \<noteq> 32) \<and>
         (lowers_to_words U s \<longrightarrow>
            (\<forall>c\<in>set (make_token U s). c = 32 \<or> isword U c) \<and>
            make_token U (make_token U s) = make_token U s)"
proof -
  from assms have nw: "\<not> isword U 32" unfolding unicode_facts_def by blast
  from make_token_parts[OF assms, of s]
  have p: "\<forall>d\<in>set (make_token U s). \<forall>b a. lower_form U b d a = [d]"
    "single_spaces (make_token U s)"
    "make_token U s = [] \<or> \<not> py_isspace (hd (make_token U s)) \<and> \<not> py_isspace (last (make_token U s))"
    by simp_all
  from p(1) have 1: "py_lower U (make_token U s) = make_token U s"
    unfolding py_lower_def by (rule lower_from_fixed)
  have "py_isspace 32" by (simp add: py_isspace_def)
  with p(3) have 3: "make_token U s = [] \<or> hd (make_token U s) \<noteq> 32 \<and> last (make_token U s) \<noteq> 32"
    by metis
  have 4: "(\<forall>c\<in>set (make_token U s). c = 32 \<or> isword U c) \<and>
            make_token U (make_token U s) = make_token U s" if l: "lowers_to_words U s"
  proof -
    from make_token_words[OF assms l] have w: "\<forall>d\<in>set (make_token U s). d = 32 \<or> isword U d" .
    from make_token_fixed[OF nw p(1) w p(2) p(3)] w show ?thesis by simp
  qed
  from 1 p(2) 3 4 show ?thesis by blast
qed

text \<open>
  The theorem at \<^verbatim>\<open>New-York  (USA)\<close>, whose token is \<^verbatim>\<open>new york usa\<close>.
\<close>

theorem make_token_properties_witness:
  "unicode_facts sample_tables \<and> lowers_to_words sample_tables (lit ''New-York  (USA)'')
   \<and> make_token sample_tables (lit ''New-York  (USA)'') = lit ''new york usa''
   \<and> py_lower sample_tables (lit ''new york usa'') = lit ''new york usa''
   \<and> make_token sample_tables (lit ''new york usa'') = lit ''new york usa''"
proof -
  have a: "lowers_to_words sample_tables (lit ''New-York  (USA)'')"
    by (simp add: lowers_to_words_def sample_tables_def sample_isword_def sample_lower_form_def)
  have t: "make_token sample_tables (lit ''New-York  (USA)'') = lit ''new york usa''"
    by (simp add: token_eval)
  from make_token_properties[OF sample_tables_facts, of "lit ''New-York  (USA)''", unfolded t] a
  have "py_lower sample_tables (lit ''new york usa'') = lit ''new york usa''"
    "make_token sample_tables (lit ''new york usa'') = lit ''new york usa''"
    by blast+
  with sample_tables_facts a t show ?thesis by (intro conjI)
qed

text \<open>
  C6 as stated fails. The code lowercases after the substitution, and the lowercase form
  of the word character U+0130 is U+0069 followed by the combining dot U+0307, which is
  not a word character: the token of the one-character string U+0130 contains it, and
  tokenizing the token again removes it.
\<close>

theorem make_token_counterexample:
  "make_token sample_tables [304] = [105, 775] \<and> \<not> isword sample_tables 775
   \<and> make_token sample_tables (make_token sample_tables [304]) = [105]
   \<and> make_token sample_tables (make_token sample_tables [304]) \<noteq> make_token sample_tables [304]"
  by (simp add: token_eval)

subsection \<open>Resolving names\<close>

lemma is_empty_iff: "is_empty name \<longleftrightarrow> name = None \<or> (\<exists>s. name = Some s \<and> list_all py_isspace s)"
  by (cases name) (auto simp: is_empty_def)

lemma normalise_string_Some:
  "\<not> list_all py_isspace s \<Longrightarrow> normalise_string (Some s) = Some (sub_runs py_isspace (strip s))"
  by (auto simp: normalise_string_def)

lemmas table_eval = get_lookup_table_def add_name_def synonyms_of_def setdefault_def
  get_location_lookup_table_def children_def region_entry_def district_entry_def
  site_entry_def stamp_children_def

lemma example_orgs_table:
  "get_lookup_table sample_tables example_orgs =
     Inr [(lit ''oxfam'', example_org), (lit ''oxfam international'', example_org)]"
  by (simp add: example_orgs_def example_org_def table_eval token_eval)

lemma example_locations_table:
  "get_location_lookup_table sample_tables example_locations =
     Inr [(lit ''north'', example_region), (lit ''dist x'', example_district)]"
  by (simp add: example_locations_def example_region_def example_district_def table_eval token_eval)

text \<open>
  C4, for any tables of word characters and lowercase forms. \<^verbatim>\<open>lookup_location\<close> returns
  null for null and for every string of whitespace only, the empty string among them. For any other name, once the table is built, it returns the
  table's entry for the name's token as it is, and when the token is not in the table the
  entry made of the fallback level and the normalised name.
\<close>

theorem lookup_location_result:
  "lookup_location U dataset None loctype = Inr None
   \<and> (list_all py_isspace ws \<longrightarrow> lookup_location U dataset (Some ws) loctype = Inr None)
   \<and> (\<not> list_all py_isspace s \<longrightarrow> get_location_lookup_table U dataset = Inr tbl \<longrightarrow>
        (\<forall>info. map_of tbl (make_token U s) = Some info \<longrightarrow>
           lookup_location U dataset (Some s) loctype = Inr (Some info))
        \<and> (map_of tbl (make_token U s) = None \<longrightarrow>
           lookup_location U dataset (Some s) loctype =
             Inr (Some (JObj [(lit ''level'', JStr loctype),
                              (lit ''name'', JStr (sub_runs py_isspace (strip s)))]))))"
  by (simp add: lookup_location_def is_empty_iff normalise_string_Some name_value_def)

text \<open>
  The theorem at the example table: at null, at a whitespace-only name, at a name whose
  token is in the table and at a name whose token is not.
\<close>

theorem lookup_location_result_witness:
  "get_location_lookup_table sample_tables example_locations =
     Inr [(lit ''north'', example_region), (lit ''dist x'', example_district)]
   \<and> lookup_location sample_tables example_locations None (lit ''unclassified'') = Inr None
   \<and> lookup_location sample_tables example_locations (Some (lit ''   '')) (lit ''unclassified'') = Inr None
   \<and> lookup_location sample_tables example_locations (Some (lit ''DIST-X'')) (lit ''unclassified'') =
       Inr (Some example_district)
   \<and> lookup_location sample_tables example_locations (Some (lit '' New  Town '')) (lit ''unclassified'') =
       Inr (Some (JObj [(lit ''level'', JStr (lit ''unclassified'')),
                        (lit ''name'', JStr (lit ''New Town''))]))"
proof -
  let ?tbl = "[(lit ''north'', example_region), (lit ''dist x'', example_district)]"
  have w: "list_all py_isspace (lit ''   '')" by (simp add: py_isspace_def)
  have n1: "\<not> list_all py_isspace (lit ''DIST-X'')" by (simp add: py_isspace_def)
  have n2: "\<not> list_all py_isspace (lit '' New  Town '')" by (simp add: py_isspace_def)
  have t1: "make_token sample_tables (lit ''DIST-X'') = lit ''dist x''" by (simp add: token_eval)
  have t2: "make_token sample_tables (lit '' New  Town '') = lit ''new town''" by (simp add: token_eval)
  have s2: "sub_runs py_isspace (strip (lit '' New  Town '')) = lit ''New Town''"
    by (simp add: strip_def py_isspace_def)
  have m1: "map_of ?tbl (lit ''dist x'') = Some example_district" by simp
  have m2: "map_of ?tbl (lit ''new town'') = None" by simp
  note r1 = lookup_location_result[of sample_tables example_locations "lit ''unclassified''" "lit ''   ''"
              "lit ''DIST-X''" ?tbl, unfolded t1]
  note r2 = lookup_location_result[of sample_tables example_locations "lit ''unclassified''" "lit ''   ''"
              "lit '' New  Town ''" ?tbl, unfolded t2 s2]
  from r1 have p0: "lookup_location sample_tables example_locations None (lit ''unclassified'') = Inr None"
    by blast
  from r1 w have p1: "lookup_location sample_tables example_locations (Some (lit ''   '')) (lit ''unclassified'') = Inr None"
    by blast
  from r1 n1 example_locations_table m1
  have p2: "lookup_location sample_tables example_locations (Some (lit ''DIST-X'')) (lit ''unclassified'') =
       Inr (Some example_district)"
    by blast
  from r2 n2 example_locations_table m2
  have p3: "lookup_location sample_tables example_locations (Some (lit '' New  Town '')) (lit ''unclassified'') =
       Inr (Some (JObj [(lit ''level'', JStr (lit ''unclassified'')),
                        (lit ''name'', JStr (lit ''New Town''))]))"
    by blast
  from example_locations_table p0 p1 p2 p3 show ?thesis by (intro conjI)
qed

text \<open>
  C5, for any tables of word characters and lowercase forms. For a name that is not
  blank, once the organization table is built: when the name's
  token is not in the table, \<^verbatim>\<open>lookup_org\<close> returns the entry made of the normalised name
  and the scope \<^verbatim>\<open>unknown\<close> and prints the one line \<^verbatim>\<open>Failed lookup |token|\<close>; when it is,
  it returns the table's entry and prints nothing.
\<close>

theorem lookup_org_result:
  assumes "\<not> list_all py_isspace s" and "get_lookup_table U dataset = Inr tbl"
  shows "(map_of tbl (make_token U s) = None \<longrightarrow>
            lookup_org U dataset (Some s) =
              Inr (Some (JObj [(lit ''name'', JStr (sub_runs py_isspace (strip s))),
                               (lit ''scope'', JStr (lit ''unknown''))]),
                   [lit ''Failed lookup |'' @ make_token U s @ lit ''|'']))
       \<and> (\<forall>info. map_of tbl (make_token U s) = Some info \<longrightarrow>
            lookup_org U dataset (Some s) = Inr (Some info, []))"
  using assms
  by (simp add: lookup_org_def is_empty_iff normalise_string_Some name_value_def)

text \<open>
  The theorem at the example table, at a name that it does not have and at one that it has.
\<close>

theorem lookup_org_result_witness:
  "get_lookup_table sample_tables example_orgs =
     Inr [(lit ''oxfam'', example_org), (lit ''oxfam international'', example_org)]
   \<and> lookup_org sample_tables example_orgs (Some (lit '' Save  the Children '')) =
     Inr (Some (JObj [(lit ''name'', JStr (lit ''Save the Children'')),
                      (lit ''scope'', JStr (lit ''unknown''))]),
          [lit ''Failed lookup |save the children|''])
   \<and> lookup_org sample_tables example_orgs (Some (lit ''OXFAM-International'')) = Inr (Some example_org, [])"
proof -
  let ?tbl = "[(lit ''oxfam'', example_org), (lit ''oxfam international'', example_org)]"
  have n1: "\<not> list_all py_isspace (lit '' Save  the Children '')" by (simp add: py_isspace_def)
  have n2: "\<not> list_all py_isspace (lit ''OXFAM-International'')" by (simp add: py_isspace_def)
  have t1: "make_token sample_tables (lit '' Save  the Children '') = lit ''save the children''"
    by (simp add: token_eval)
  have t2: "make_token sample_tables (lit ''OXFAM-International'') = lit ''oxfam international''"
    by (simp add: token_eval)
  have s1: "sub_runs py_isspace (strip (lit '' Save  the Children '')) = lit ''Save the Children''"
    by (simp add: strip_def py_isspace_def)
  have m1: "map_of ?tbl (lit ''save the children'') = None" by simp
  have m2: "map_of ?tbl (lit ''oxfam international'') = Some example_org" by simp
  have l: "lit ''Failed lookup |'' @ lit ''save the children'' @ lit ''|'' = lit ''Failed lookup |save the children|''"
    by simp
  from lookup_org_result[OF n1 example_orgs_table, unfolded t1 s1] m1
  have p1: "lookup_org sample_tables example_orgs (Some (lit '' Save  the Children '')) =
     Inr (Some (JObj [(lit ''name'', JStr (lit ''Save the Children'')),
                      (lit ''scope'', JStr (lit ''unknown''))]),
          [lit ''Failed lookup |'' @ lit ''save the children'' @ lit ''|''])"
    by blast
  from lookup_org_result[OF n2 example_orgs_table, unfolded t2] m2
  have p2: "lookup_org sample_tables example_orgs (Some (lit ''OXFAM-International'')) = Inr (Some example_org, [])"
    by blast
  from example_orgs_table p1 p2 show ?thesis unfolding l by (intro conjI)
qed

section \<open>Properties of the location table\<close>

subsection \<open>The loops insert what the spec lists\<close>

lemma map_of_setdefault_append: "map_of (setdefault k v tbl) = map_of (tbl @ [(k, v)])"
  by (rule ext) (auto simp: setdefault_def map_add_def split: option.splits)

lemma map_of_extend:
  "map_of b = map_of (a @ xs) \<Longrightarrow> map_of c = map_of (b @ ys) \<Longrightarrow> map_of c = map_of (a @ xs @ ys)"
  by simp

lemma token_of_Inr: "token_of U x = Inr t \<Longrightarrow> \<exists>s. x = JStr s \<and> t = make_token U s"
  by (cases x) auto

lemma synonyms_loop_map:
  "synonyms_loop U xs e tbl = Inr tbl' \<Longrightarrow>
   map_of tbl' = map_of (tbl @ map (\<lambda>t. (t, e)) (tokens_of U xs))"
proof (induction xs arbitrary: tbl)
  case Nil
  then show ?case by simp
next
  case (Cons x xs)
  from Cons.prems obtain t where t: "token_of U x = Inr t"
    and rest: "synonyms_loop U xs e (setdefault t e tbl) = Inr tbl'"
    by (auto split: sum.splits)
  from token_of_Inr[OF t] obtain s where x: "x = JStr s" "t = make_token U s" by blast
  have "map_of (setdefault t e tbl) = map_of (tbl @ [(t, e)])"
    by (rule map_of_setdefault_append)
  from this Cons.IH[OF rest]
  have "map_of tbl' = map_of (tbl @ [(t, e)] @ map (\<lambda>t. (t, e)) (tokens_of U xs))"
    by (rule map_of_extend)
  with x show ?case by simp
qed

lemma synonyms_map:
  assumes "synonyms_of info = Inr syns" "synonyms_loop U syns e tbl = Inr tbl'"
  shows "map_of tbl' = map_of (tbl @ synonym_insertions U info e)"
  using synonyms_loop_map[OF assms(2)] assms(1) by (simp add: synonym_insertions_def)

lemma setitem_Inr: "setitem x k v = Inr y \<Longrightarrow> y = stamp k v x \<and> (\<exists>kvs. x = JObj kvs)"
  by (cases x) auto

lemma getitem_field: "getitem info k = Inr v \<Longrightarrow> field info k = v"
  by (simp add: field_def)

lemma children_child_list: "children info k = Inr cs \<Longrightarrow> child_list info k = cs"
  by (simp add: child_list_def)

lemma sites_loop_map:
  "sites_loop U info1 info2 sites tbl = Inr tbl' \<Longrightarrow>
   map_of tbl' =
     map_of (tbl @ concat (map (site_insertions U (field info1 (lit ''name'')) (field info2 (lit ''name'')))
                               sites))"
proof (induction sites arbitrary: tbl)
  case Nil
  then show ?case by simp
next
  case (Cons site sites)
  obtain name3 info3 where site: "site = (name3, info3)" by (cases site)
  from Cons.prems site obtain rname s1 dname s2 syns tbl1
    where r: "getitem info1 (lit ''name'') = Inr rname"
      and s1: "setitem info3 (lit ''admin1'') rname = Inr s1"
      and d: "getitem info2 (lit ''name'') = Inr dname"
      and s2: "setitem s1 (lit ''admin2'') dname = Inr s2"
      and syns: "synonyms_of s2 = Inr syns"
      and tbl1: "synonyms_loop U syns s2 (setdefault (make_token U name3) s2 tbl) = Inr tbl1"
      and rest: "sites_loop U info1 info2 sites tbl1 = Inr tbl'"
    by (auto split: sum.splits)
  from setitem_Inr[OF s1] setitem_Inr[OF s2] have e: "s2 = site_entry rname dname info3"
    by (simp add: site_entry_def)
  have "map_of (setdefault (make_token U name3) s2 tbl) = map_of (tbl @ [(make_token U name3, s2)])"
    by (rule map_of_setdefault_append)
  from this synonyms_map[OF syns tbl1]
  have "map_of tbl1 = map_of (tbl @ [(make_token U name3, s2)] @ synonym_insertions U s2 s2)"
    by (rule map_of_extend)
  then have 1: "map_of tbl1 = map_of (tbl @ site_insertions U rname dname site)"
    using e site by (simp add: site_insertions_def Let_def)
  from 1 Cons.IH[OF rest]
  have "map_of tbl' =
          map_of (tbl @ site_insertions U rname dname site
                  @ concat (map (site_insertions U (field info1 (lit ''name''))
                                   (field info2 (lit ''name''))) sites))"
    by (rule map_of_extend)
  then show ?case
    unfolding getitem_field[OF r] getitem_field[OF d] by simp
qed

lemma districts_loop_map:
  "districts_loop U info1 districts tbl = Inr tbl' \<Longrightarrow>
   map_of tbl' =
     map_of (tbl @ concat (map (district_insertions U (field info1 (lit ''name''))) districts))"
proof (induction districts arbitrary: tbl)
  case Nil
  then show ?case by simp
next
  case (Cons district districts)
  obtain name2 info2 where district: "district = (name2, info2)" by (cases district)
  from Cons.prems district obtain rname d sites tbl1 syns tbl2
    where r: "getitem info1 (lit ''name'') = Inr rname"
      and d: "setitem info2 (lit ''admin1'') rname = Inr d"
      and sites: "children d (lit ''unclassified'') = Inr sites"
      and tbl1: "sites_loop U info1 d sites
                   (setdefault (make_token U name2) (district_entry rname d) tbl) = Inr tbl1"
      and syns: "synonyms_of d = Inr syns"
      and tbl2: "synonyms_loop U syns (district_entry rname d) tbl1 = Inr tbl2"
      and rest: "districts_loop U info1 districts tbl2 = Inr tbl'"
    by (auto split: sum.splits)
  let ?e = "district_entry rname d"
  let ?S = "concat (map (site_insertions U rname (field d (lit ''name''))) sites)"
  from setitem_Inr[OF d] have d': "d = stamp (lit ''admin1'') rname info2" by simp
  have "map_of (setdefault (make_token U name2) ?e tbl) = map_of (tbl @ [(make_token U name2, ?e)])"
    by (rule map_of_setdefault_append)
  from this sites_loop_map[OF tbl1, unfolded getitem_field[OF r]]
  have "map_of tbl1 = map_of (tbl @ [(make_token U name2, ?e)] @ ?S)"
    by (rule map_of_extend)
  from this synonyms_map[OF syns tbl2]
  have "map_of tbl2 = map_of (tbl @ ([(make_token U name2, ?e)] @ ?S) @ synonym_insertions U d ?e)"
    by (rule map_of_extend)
  then have 1: "map_of tbl2 = map_of (tbl @ district_insertions U rname district)"
    using d' district children_child_list[OF sites]
    by (simp add: district_insertions_def Let_def)
  from 1 Cons.IH[OF rest]
  have "map_of tbl' =
          map_of (tbl @ district_insertions U rname district
                  @ concat (map (district_insertions U (field info1 (lit ''name''))) districts))"
    by (rule map_of_extend)
  then show ?case
    unfolding getitem_field[OF r] by simp
qed

lemma region_step_map:
  assumes "children info1 (lit ''admin2'') = Inr districts"
    and "districts_loop U info1 districts tbl0 = Inr tbl1"
    and "synonyms_of info1 = Inr syns"
    and "synonyms_loop U syns (region_entry info1) tbl1 = Inr tbl2"
  shows "map_of tbl2 = map_of (tbl0 @ lower_insertions U info1)"
proof -
  from districts_loop_map[OF assms(2)] synonyms_map[OF assms(3,4)]
  have "map_of tbl2 =
          map_of (tbl0 @ concat (map (district_insertions U (field info1 (lit ''name''))) districts)
                  @ synonym_insertions U info1 (region_entry info1))"
    by (rule map_of_extend)
  with children_child_list[OF assms(1)] show ?thesis
    by (simp add: lower_insertions_def)
qed

lemma regions_loop_map:
  "regions_loop U regions tbl = Inr tbl' \<Longrightarrow>
   map_of tbl' t =
     (case map_of (rev (map (region_token U) regions)) t of
        Some e \<Rightarrow> Some e
      | None \<Rightarrow> map_of (tbl @ concat (map (region_insertions U) regions)) t)"
proof (induction regions arbitrary: tbl)
  case Nil
  then show ?case by simp
next
  case (Cons region regions)
  obtain name1 info1 where region: "region = (name1, info1)" by (cases region)
  let ?tbl0 = "AList.update (make_token U name1) (region_entry info1) tbl"
  from Cons.prems region obtain districts tbl1 syns tbl2
    where ds: "children info1 (lit ''admin2'') = Inr districts"
      and tbl1: "districts_loop U info1 districts ?tbl0 = Inr tbl1"
      and syns: "synonyms_of info1 = Inr syns"
      and tbl2: "synonyms_loop U syns (region_entry info1) tbl1 = Inr tbl2"
      and rest: "regions_loop U regions tbl2 = Inr tbl'"
    by (auto split: sum.splits)
  from region_step_map[OF ds tbl1 syns tbl2]
  have 1: "map_of tbl2 = map_of (?tbl0 @ lower_insertions U info1)" .
  have 2: "map_of ?tbl0 = (map_of tbl)(make_token U name1 \<mapsto> region_entry info1)"
    by (rule update_conv')
  have a: "region_token U region = (make_token U name1, region_entry info1)"
    by (simp add: region_token_def region)
  have b: "region_insertions U region = (make_token U name1, region_entry info1) # lower_insertions U info1"
    by (simp add: region_insertions_def region_token_def region)
  from Cons.IH[OF rest]
  have ih: "map_of tbl' t =
     (case map_of (rev (map (region_token U) regions)) t of
        Some e \<Rightarrow> Some e
      | None \<Rightarrow> (map_of (concat (map (region_insertions U) regions)) ++ map_of tbl2) t)"
    by (simp cong: option.case_cong)
  show ?case
  proof (cases "map_of (rev (map (region_token U) regions)) t")
    case (Some x)
    with ih show ?thesis by (simp add: a map_add_def)
  next
    case None
    with ih have "map_of tbl' t = (map_of (concat (map (region_insertions U) regions)) ++ map_of tbl2) t"
      by simp
    also have "\<dots> = (map_of (concat (map (region_insertions U) regions))
                    ++ (map_of (lower_insertions U info1)
                        ++ (map_of tbl)(make_token U name1 \<mapsto> region_entry info1))) t"
      unfolding 1 map_of_append 2 ..
    finally show ?thesis
      using None by (simp add: a b map_add_def split: option.splits)
  qed
qed

lemma table_lookup:
  assumes "get_location_lookup_table U dataset = Inr tbl"
  shows "map_of tbl t =
           (case map_of (rev (region_tokens U dataset)) t of
              Some e \<Rightarrow> Some e
            | None \<Rightarrow> map_of (insertions U dataset) t)"
proof -
  from assms obtain regions where r: "items dataset = Inr regions"
    and l: "regions_loop U regions [] = Inr tbl"
    by (auto simp: get_location_lookup_table_def split: sum.splits)
  from r have rs: "regions_of dataset = regions" by (simp add: regions_of_def)
  have i: "insertions U dataset = concat (map (region_insertions U) regions)"
    unfolding insertions_def rs ..
  have k: "region_tokens U dataset = map (region_token U) regions"
    unfolding region_tokens_def rs ..
  from regions_loop_map[OF l, of t] show ?thesis
    unfolding i k by (simp cong: option.case_cong)
qed

subsection \<open>Stamps\<close>

lemma getitem_stamp_same: "getitem (stamp k v (JObj kvs)) k = Inr v"
  by (simp add: update_conv')

lemma getitem_stamp_other: "k' \<noteq> k \<Longrightarrow> getitem (stamp k v x) k' = getitem x k'"
  by (cases x) (simp_all add: update_conv')

lemma getitem_stamp_children: "k' \<noteq> key \<Longrightarrow> getitem (stamp_children key f x) k' = getitem x k'"
  by (auto simp: stamp_children_def update_conv' split: json.splits option.splits)

lemma site_entry_stamps:
  "getitem (site_entry rname dname (JObj kvs)) (lit ''admin1'') = Inr rname \<and>
   getitem (site_entry rname dname (JObj kvs)) (lit ''admin2'') = Inr dname"
  by (simp add: site_entry_def update_conv')

lemma district_entry_stamp:
  "getitem (district_entry rname (stamp (lit ''admin1'') rname (JObj kvs))) (lit ''admin1'') = Inr rname"
proof (cases "getitem (stamp (lit ''admin1'') rname (JObj kvs)) (lit ''name'')")
  case (Inl e)
  then show ?thesis
    unfolding district_entry_def by (simp only: sum.case getitem_stamp_same)
next
  case (Inr dname)
  have ne: "lit ''admin1'' \<noteq> lit ''unclassified''" by simp
  show ?thesis
    unfolding district_entry_def Inr
    by (simp only: sum.case getitem_stamp_children[OF ne] getitem_stamp_same)
qed

lemma sites_loop_written:
  "sites_loop U info1 d sites tbl = Inr tbl' \<Longrightarrow> site \<in> set sites \<Longrightarrow> site_written info1 d site"
proof (induction sites arbitrary: tbl)
  case Nil
  then show ?case by simp
next
  case (Cons s sites)
  obtain name3 info3 where s: "s = (name3, info3)" by (cases s)
  from Cons.prems(1) s obtain rname s1 dname tbl1
    where r: "getitem info1 (lit ''name'') = Inr rname"
      and s1: "setitem info3 (lit ''admin1'') rname = Inr s1"
      and dn: "getitem d (lit ''name'') = Inr dname"
      and rest: "sites_loop U info1 d sites tbl1 = Inr tbl'"
    by (auto split: sum.splits)
  show ?case
  proof (cases "site = s")
    case True
    from setitem_Inr[OF s1] obtain kvs where "info3 = JObj kvs" by blast
    with True s r dn site_entry_stamps[of rname dname kvs] show ?thesis
      unfolding site_written_def by auto
  next
    case False
    with Cons.prems(2) have "site \<in> set sites" by simp
    with rest show ?thesis by (rule Cons.IH)
  qed
qed

lemma districts_loop_written:
  "districts_loop U info1 districts tbl = Inr tbl' \<Longrightarrow> district \<in> set districts \<Longrightarrow>
   district_written info1 district"
proof (induction districts arbitrary: tbl)
  case Nil
  then show ?case by simp
next
  case (Cons x districts)
  obtain name2 info2 where x: "x = (name2, info2)" by (cases x)
  from Cons.prems(1) x obtain rname d sites tbl1 tbl2
    where r: "getitem info1 (lit ''name'') = Inr rname"
      and d: "setitem info2 (lit ''admin1'') rname = Inr d"
      and sites: "children d (lit ''unclassified'') = Inr sites"
      and tbl1: "sites_loop U info1 d sites
                   (setdefault (make_token U name2) (district_entry rname d) tbl) = Inr tbl1"
      and rest: "districts_loop U info1 districts tbl2 = Inr tbl'"
    by (auto split: sum.splits)
  show ?case
  proof (cases "district = x")
    case True
    from setitem_Inr[OF d] obtain kvs where kvs: "info2 = JObj kvs"
      and d': "d = stamp (lit ''admin1'') rname info2" by blast
    have 1: "getitem (district_entry rname d) (lit ''admin1'') = Inr rname"
      unfolding d' kvs by (rule district_entry_stamp)
    have 2: "\<forall>site\<in>set (child_list d (lit ''unclassified'')). site_written info1 d site"
      unfolding children_child_list[OF sites] using sites_loop_written[OF tbl1] by blast
    from r 1[unfolded d'] 2[unfolded d'] show ?thesis
      unfolding district_written_def True x snd_conv by blast
  next
    case False
    with Cons.prems(2) have "district \<in> set districts" by simp
    with rest show ?thesis by (rule Cons.IH)
  qed
qed

lemma regions_loop_written:
  "regions_loop U regions tbl = Inr tbl' \<Longrightarrow> region \<in> set regions \<Longrightarrow>
   district \<in> set (child_list (snd region) (lit ''admin2'')) \<Longrightarrow>
   district_written (snd region) district"
proof (induction regions arbitrary: tbl)
  case Nil
  then show ?case by simp
next
  case (Cons x regions)
  obtain name1 info1 where x: "x = (name1, info1)" by (cases x)
  from Cons.prems(1) x obtain districts tbl0 tbl1 tbl2
    where ds: "children info1 (lit ''admin2'') = Inr districts"
      and tbl1: "districts_loop U info1 districts tbl0 = Inr tbl1"
      and rest: "regions_loop U regions tbl2 = Inr tbl'"
    by (auto split: sum.splits)
  show ?case
  proof (cases "region = x")
    case True
    with Cons.prems(3) x children_child_list[OF ds] have "district \<in> set districts" by simp
    with tbl1 have "district_written info1 district" by (rule districts_loop_written)
    with True x show ?thesis by simp
  next
    case False
    with Cons.prems(2) have "region \<in> set regions" by simp
    with rest show ?thesis using Cons.prems(3) by (rule Cons.IH)
  qed
qed

lemma in_district_entries:
  "x \<in> set (district_entries dataset) \<longleftrightarrow>
     (\<exists>region\<in>set (regions_of dataset). \<exists>district\<in>set (child_list (snd region) (lit ''admin2'')).
        x = (snd region,
             stamp (lit ''admin1'') (field (snd region) (lit ''name'')) (snd district),
             district_entry (field (snd region) (lit ''name''))
               (stamp (lit ''admin1'') (field (snd region) (lit ''name'')) (snd district))))"
  unfolding district_entries_def by auto

lemma in_site_entries:
  "x \<in> set (site_entries dataset) \<longleftrightarrow>
     (\<exists>rde\<in>set (district_entries dataset). \<exists>site\<in>set (child_list (fst (snd rde)) (lit ''unclassified'')).
        x = (fst rde, fst (snd rde),
             site_entry (field (fst rde) (lit ''name'')) (field (fst (snd rde)) (lit ''name''))
               (snd site)))"
  unfolding site_entries_def by auto

lemma in_synonym_insertions: "(t, x) \<in> set (synonym_insertions U info e) \<Longrightarrow> x = e"
  by (auto simp: synonym_insertions_def split: sum.splits)

lemma in_site_insertions:
  "(t, x) \<in> set (site_insertions U r dn site) \<Longrightarrow> x = site_entry r dn (snd site)"
  by (auto simp: site_insertions_def Let_def dest: in_synonym_insertions)

lemma in_district_insertions:
  assumes "(t, x) \<in> set (district_insertions U r district)"
  shows "x = district_entry r (stamp (lit ''admin1'') r (snd district)) \<or>
         (\<exists>site\<in>set (child_list (stamp (lit ''admin1'') r (snd district)) (lit ''unclassified'')).
            x = site_entry r (field (stamp (lit ''admin1'') r (snd district)) (lit ''name'')) (snd site))"
proof -
  let ?d = "stamp (lit ''admin1'') r (snd district)"
  from assms consider "x = district_entry r ?d"
    | site where "site \<in> set (child_list ?d (lit ''unclassified''))"
        "(t, x) \<in> set (site_insertions U r (field ?d (lit ''name'')) site)"
    | "(t, x) \<in> set (synonym_insertions U ?d (district_entry r ?d))"
    unfolding district_insertions_def Let_def by auto
  then show ?thesis
  proof cases
    case 1
    then show ?thesis by simp
  next
    case 2
    from in_site_insertions[OF 2(2)] 2(1) show ?thesis by blast
  next
    case 3
    from in_synonym_insertions[OF 3] show ?thesis by simp
  qed
qed

lemma in_region_insertions:
  assumes "(t, x) \<in> set (region_insertions U region)"
  shows "x = region_entry (snd region) \<or>
         (\<exists>district\<in>set (child_list (snd region) (lit ''admin2'')).
            (t, x) \<in> set (district_insertions U (field (snd region) (lit ''name'')) district))"
proof -
  from assms consider "x = region_entry (snd region)"
    | district where "district \<in> set (child_list (snd region) (lit ''admin2''))"
        "(t, x) \<in> set (district_insertions U (field (snd region) (lit ''name'')) district)"
    | "(t, x) \<in> set (synonym_insertions U (snd region) (region_entry (snd region)))"
    unfolding region_insertions_def lower_insertions_def region_token_def by auto
  then show ?thesis
  proof cases
    case 1
    then show ?thesis by simp
  next
    case 2
    then show ?thesis by blast
  next
    case 3
    from in_synonym_insertions[OF 3] show ?thesis by simp
  qed
qed

lemma insertions_origin:
  assumes "(t, x) \<in> set (insertions U dataset)"
  shows "x \<in> region_entry ` snd ` set (regions_of dataset) \<or>
         x \<in> (\<lambda>y. snd (snd y)) ` set (district_entries dataset) \<or>
         x \<in> (\<lambda>y. snd (snd y)) ` set (site_entries dataset)"
proof -
  from assms obtain region where region: "region \<in> set (regions_of dataset)"
    and ins: "(t, x) \<in> set (region_insertions U region)"
    unfolding insertions_def by auto
  let ?r = "field (snd region) (lit ''name'')"
  from in_region_insertions[OF ins] show ?thesis
  proof
    assume "x = region_entry (snd region)"
    with region show ?thesis by blast
  next
    assume "\<exists>district\<in>set (child_list (snd region) (lit ''admin2'')).
              (t, x) \<in> set (district_insertions U ?r district)"
    then obtain district where district: "district \<in> set (child_list (snd region) (lit ''admin2''))"
      and dins: "(t, x) \<in> set (district_insertions U ?r district)" by blast
    let ?d = "stamp (lit ''admin1'') ?r (snd district)"
    from region district
    have de: "(snd region, ?d, district_entry ?r ?d) \<in> set (district_entries dataset)"
      unfolding in_district_entries by blast
    from in_district_insertions[OF dins] show ?thesis
    proof
      assume "x = district_entry ?r ?d"
      with de have "x \<in> (\<lambda>y. snd (snd y)) ` set (district_entries dataset)" by force
      then show ?thesis by simp
    next
      assume "\<exists>site\<in>set (child_list ?d (lit ''unclassified'')).
                x = site_entry ?r (field ?d (lit ''name'')) (snd site)"
      then obtain site where site: "site \<in> set (child_list ?d (lit ''unclassified''))"
        and x: "x = site_entry ?r (field ?d (lit ''name'')) (snd site)" by blast
      from de site have "(snd region, ?d, x) \<in> set (site_entries dataset)"
        unfolding in_site_entries x by force
      then have "x \<in> (\<lambda>y. snd (snd y)) ` set (site_entries dataset)" by force
      then show ?thesis by simp
    qed
  qed
qed

subsection \<open>The stamps of an entry\<close>

lemma child_list_stamp_children:
  "child_list (stamp_children key f x) key = map (\<lambda>nc. (fst nc, f (snd nc))) (child_list x key)"
  by (auto simp: stamp_children_def child_list_def children_def update_conv'
           split: json.splits option.splits)

lemma child_list_stamp: "k \<noteq> key \<Longrightarrow> child_list (stamp k v x) key = child_list x key"
  by (cases x) (simp_all add: child_list_def children_def update_conv')

lemma site_entry_name: "getitem (site_entry rname dname x) (lit ''name'') = getitem x (lit ''name'')"
  unfolding site_entry_def by (simp add: getitem_stamp_other)

lemma site_entry_stamped:
  assumes w: "site_written info1 d site"
    and d: "getitem d (lit ''name'') = getitem district (lit ''name'')"
  shows "stamped_site info1 district
           (site_entry (field info1 (lit ''name'')) (field d (lit ''name'')) (snd site))"
proof -
  from w obtain rname dname where rn: "getitem info1 (lit ''name'') = Inr rname"
    and dn: "getitem d (lit ''name'') = Inr dname"
    and a1: "getitem (site_entry rname dname (snd site)) (lit ''admin1'') = Inr rname"
    and a2: "getitem (site_entry rname dname (snd site)) (lit ''admin2'') = Inr dname"
    unfolding site_written_def by blast
  from dn d have dn': "getitem district (lit ''name'') = Inr dname" by simp
  from rn dn' a1 a2 show ?thesis
    unfolding stamped_site_def getitem_field[OF rn] getitem_field[OF dn] by blast
qed

lemma district_entry_stamped:
  assumes w: "district_written info1 district"
    and rn: "getitem info1 (lit ''name'') = Inr rname"
    and r: "getitem r (lit ''name'') = Inr rname"
  shows "stamped_district r (district_entry rname (stamp (lit ''admin1'') rname (snd district))) \<and>
         entry_of (district_entry rname (stamp (lit ''admin1'') rname (snd district)))
           (snd district) (lit ''unclassified'')"
proof -
  let ?d = "stamp (lit ''admin1'') rname (snd district)"
  let ?e = "district_entry rname ?d"
  from w rn have a1: "getitem ?e (lit ''admin1'') = Inr rname"
    and sites: "\<forall>site\<in>set (child_list ?d (lit ''unclassified'')). site_written info1 ?d site"
    unfolding district_written_def by auto
  have dname: "getitem ?d (lit ''name'') = getitem (snd district) (lit ''name'')"
    by (simp add: getitem_stamp_other)
  have dsites: "child_list ?d (lit ''unclassified'') = child_list (snd district) (lit ''unclassified'')"
    by (simp add: child_list_stamp)
  from r a1 have 1: "\<exists>rname. getitem r (lit ''name'') = Inr rname \<and> getitem ?e (lit ''admin1'') = Inr rname"
    by blast
  show ?thesis
  proof (cases "getitem ?d (lit ''name'')")
    case (Inl err)
    then have e: "?e = ?d" unfolding district_entry_def by simp
    have "child_list ?d (lit ''unclassified'') = []"
    proof (rule ccontr)
      assume "child_list ?d (lit ''unclassified'') \<noteq> []"
      then obtain site where "site \<in> set (child_list ?d (lit ''unclassified''))"
        by (cases "child_list ?d (lit ''unclassified'')") auto
      with sites have "site_written info1 ?d site" by blast
      with Inl show False unfolding site_written_def by auto
    qed
    with 1 dname dsites show ?thesis
      unfolding stamped_district_def entry_of_def e by simp
  next
    case (Inr dname')
    have ne: "lit ''name'' \<noteq> lit ''unclassified''" by simp
    have e: "?e = stamp_children (lit ''unclassified'') (site_entry rname dname') ?d"
      unfolding district_entry_def Inr by simp
    have en: "getitem ?e (lit ''name'') = Inr dname'"
      unfolding e getitem_stamp_children[OF ne] by (rule Inr)
    have cl: "child_list ?e (lit ''unclassified'') =
                map (\<lambda>nc. (fst nc, site_entry rname dname' (snd nc))) (child_list ?d (lit ''unclassified''))"
      unfolding e by (rule child_list_stamp_children)
    have 2: "stamped_site r ?e (snd site)" if "site \<in> set (child_list ?e (lit ''unclassified''))" for site
    proof -
      from that obtain nc where nc: "nc \<in> set (child_list ?d (lit ''unclassified''))"
        and site: "site = (fst nc, site_entry rname dname' (snd nc))"
        unfolding cl by auto
      from sites nc have "site_written info1 ?d nc" by blast
      then obtain rn' dn' where "getitem info1 (lit ''name'') = Inr rn'" "getitem ?d (lit ''name'') = Inr dn'"
        and st: "getitem (site_entry rn' dn' (snd nc)) (lit ''admin1'') = Inr rn'"
          "getitem (site_entry rn' dn' (snd nc)) (lit ''admin2'') = Inr dn'"
        unfolding site_written_def by blast
      with rn Inr have eq: "rn' = rname" "dn' = dname'" by simp_all
      from r en st show ?thesis unfolding stamped_site_def site snd_conv eq by blast
    qed
    have 3: "entry_of ?e (snd district) (lit ''unclassified'')"
      unfolding entry_of_def en cl using Inr dname dsites by (simp add: comp_def)
    from 1 2 3 show ?thesis unfolding stamped_district_def by blast
  qed
qed

lemma region_entry_stamped:
  assumes w: "\<forall>district\<in>set (child_list info1 (lit ''admin2'')). district_written info1 district"
  shows "stamped_region (region_entry info1) \<and> entry_of (region_entry info1) info1 (lit ''admin2'')"
proof (cases "getitem info1 (lit ''name'')")
  case (Inl err)
  then have e: "region_entry info1 = info1" unfolding region_entry_def by simp
  have "child_list info1 (lit ''admin2'') = []"
  proof (rule ccontr)
    assume "child_list info1 (lit ''admin2'') \<noteq> []"
    then obtain district where "district \<in> set (child_list info1 (lit ''admin2''))"
      by (cases "child_list info1 (lit ''admin2'')") auto
    with w have "district_written info1 district" by blast
    with Inl show False unfolding district_written_def by auto
  qed
  then show ?thesis unfolding stamped_region_def entry_of_def e by simp
next
  case (Inr rname)
  let ?f = "\<lambda>info2. district_entry rname (stamp (lit ''admin1'') rname info2)"
  let ?e = "region_entry info1"
  have ne: "lit ''name'' \<noteq> lit ''admin2''" by simp
  have e: "?e = stamp_children (lit ''admin2'') ?f info1"
    unfolding region_entry_def Inr by simp
  have en: "getitem ?e (lit ''name'') = Inr rname"
    unfolding e getitem_stamp_children[OF ne] by (rule Inr)
  have cl: "child_list ?e (lit ''admin2'') =
              map (\<lambda>nc. (fst nc, ?f (snd nc))) (child_list info1 (lit ''admin2''))"
    unfolding e by (rule child_list_stamp_children)
  have 1: "stamped_district ?e (snd district)" if "district \<in> set (child_list ?e (lit ''admin2''))"
    for district
  proof -
    from that obtain nc where nc: "nc \<in> set (child_list info1 (lit ''admin2''))"
      and district: "district = (fst nc, ?f (snd nc))"
      unfolding cl by auto
    from w nc have "district_written info1 nc" by blast
    from district_entry_stamped[OF this Inr en] show ?thesis
      unfolding district snd_conv by blast
  qed
  have 2: "entry_of ?e info1 (lit ''admin2'')"
    unfolding entry_of_def en cl using Inr by (simp add: comp_def)
  from 1 2 show ?thesis unfolding stamped_region_def by blast
qed

subsection \<open>The collision example\<close>

lemmas insertions_eval = insertions_def region_tokens_def regions_of_def region_insertions_def
  region_token_def lower_insertions_def district_insertions_def site_insertions_def
  synonym_insertions_def child_list_def field_def

lemmas collision_eval = collision_example_def collision_table_def collision_region_def
  collision_region_b_def collision_region_x_def collision_district_def collision_district_y_def
  collision_site_def collision_camp_def insertions_eval table_eval token_eval

lemma collision_build:
  "get_location_lookup_table sample_tables collision_example = Inr collision_table"
  by (simp add: collision_eval)

subsection \<open>The claims about the location table\<close>

text \<open>
  C1, as the code has it, for any tables of word characters and lowercase forms. The
  tokens are inserted in the order of the spec, which
  \<open>insertions\<close> lists. A region's own token is stored unconditionally (line 155) and
  replaces whatever entry the token had; every other insertion is dropped when its token is
  in the table already. So, once the table is built, a token resolves to the last region
  whose own name has that token, when there is one, and otherwise to the first entry
  inserted under it: a site name, a district name or a synonym that collides with a token
  inserted earlier resolves to the earlier entry, unless a later region's own name has the
  same token.
\<close>

theorem first_writer_wins:
  assumes "get_location_lookup_table U dataset = Inr tbl"
  shows "map_of tbl t =
           (case map_of (rev (region_tokens U dataset)) t of
              Some e \<Rightarrow> Some e
            | None \<Rightarrow> map_of (insertions U dataset) t)"
  using assms by (rule table_lookup)

text \<open>
  The theorem at the collision example, whose insertions have the tokens \<^verbatim>\<open>a\<close>, \<^verbatim>\<open>x\<close>, \<^verbatim>\<open>a\<close>,
  \<^verbatim>\<open>y\<close>, \<^verbatim>\<open>camp\<close>, \<^verbatim>\<open>b\<close>, \<^verbatim>\<open>x\<close>, \<^verbatim>\<open>y\<close>, \<^verbatim>\<open>x\<close> in this order. No region has the token \<^verbatim>\<open>y\<close>: the
  district \<^verbatim>\<open>y\<close> of region \<^verbatim>\<open>B\<close> collides with the district \<^verbatim>\<open>Y\<close> of region \<^verbatim>\<open>A\<close>, inserted
  before it, and the token resolves to the earlier district. The site \<^verbatim>\<open>a\<close> collides with
  the region \<^verbatim>\<open>A\<close>, and the token \<^verbatim>\<open>a\<close> resolves to the region.
\<close>

theorem first_writer_wins_witness:
  "get_location_lookup_table sample_tables collision_example = Inr collision_table
   \<and> map fst (insertions sample_tables collision_example) =
       [lit ''a'', lit ''x'', lit ''a'', lit ''y'', lit ''camp'', lit ''b'', lit ''x'', lit ''y'', lit ''x'']
   \<and> map_of (rev (region_tokens sample_tables collision_example)) (lit ''y'') = None
   \<and> map_of (insertions sample_tables collision_example) (lit ''y'') = Some collision_district_y
   \<and> map_of collision_table (lit ''y'') = Some collision_district_y
   \<and> map_of (rev (region_tokens sample_tables collision_example)) (lit ''a'') = Some collision_region
   \<and> map_of collision_table (lit ''a'') = Some collision_region"
proof -
  have 1: "map fst (insertions sample_tables collision_example) =
       [lit ''a'', lit ''x'', lit ''a'', lit ''y'', lit ''camp'', lit ''b'', lit ''x'', lit ''y'', lit ''x'']"
    by (simp add: collision_eval)
  have 2: "map_of (rev (region_tokens sample_tables collision_example)) (lit ''y'') = None"
    by (simp add: collision_eval)
  have 3: "map_of (insertions sample_tables collision_example) (lit ''y'') = Some collision_district_y"
    by (simp add: collision_eval)
  have 4: "map_of (rev (region_tokens sample_tables collision_example)) (lit ''a'') = Some collision_region"
    by (simp add: collision_eval)
  from first_writer_wins[OF collision_build, of "lit ''y''"]
  have 5: "map_of collision_table (lit ''y'') = Some collision_district_y"
    unfolding 2 3 by simp
  from first_writer_wins[OF collision_build, of "lit ''a''"]
  have 6: "map_of collision_table (lit ''a'') = Some collision_region"
    unfolding 4 by simp
  from collision_build 1 2 3 5 4 6 show ?thesis by (intro conjI)
qed

text \<open>
  C1 as stated fails. In the collision example the district \<^verbatim>\<open>x\<close> of region \<^verbatim>\<open>B\<close> collides
  with the district \<^verbatim>\<open>X\<close> of region \<^verbatim>\<open>A\<close>, declared earlier and the first entry inserted
  under the token \<^verbatim>\<open>x\<close>; the insertion of the later region \<^verbatim>\<open>X\<close> is not dropped, and
  resolving \<^verbatim>\<open>x\<close> returns that region, not the earlier district.
\<close>

theorem first_writer_counterexample:
  "lookup_location sample_tables collision_example (Some (lit ''x'')) (lit ''unclassified'') =
     Inr (Some collision_region_x)
   \<and> map_of (insertions sample_tables collision_example) (lit ''x'') = Some collision_district
   \<and> collision_district \<noteq> collision_region_x"
proof -
  have t: "make_token sample_tables (lit ''x'') = lit ''x''" by (simp add: token_eval)
  have e: "\<not> is_empty (Some (lit ''x''))" by (simp add: is_empty_def py_isspace_def)
  have m: "map_of collision_table (lit ''x'') = Some collision_region_x"
    by (simp add: collision_table_def)
  have 1: "lookup_location sample_tables collision_example (Some (lit ''x'')) (lit ''unclassified'') =
     Inr (Some collision_region_x)"
    unfolding lookup_location_def collision_build option.case sum.case t m using e by simp
  have 2: "map_of (insertions sample_tables collision_example) (lit ''x'') = Some collision_district"
    by (simp add: collision_eval)
  have 3: "collision_district \<noteq> collision_region_x"
    by (simp add: collision_district_def collision_region_x_def)
  from 1 2 3 show ?thesis by (intro conjI)
qed

text \<open>
  C7, for any tables of word characters and lowercase forms. Every entry that the table
  returns, once it is built, is one of three. It is the
  entry of a region of the dataset, and then every district in it has the region's \<^verbatim>\<open>name\<close>
  under \<^verbatim>\<open>admin1\<close> and every site of such a district has the region's \<^verbatim>\<open>name\<close> under
  \<^verbatim>\<open>admin1\<close> and the district's \<^verbatim>\<open>name\<close> under \<^verbatim>\<open>admin2\<close>. Or it is the entry of a district of
  a region, and then it has the region's \<^verbatim>\<open>name\<close> under \<^verbatim>\<open>admin1\<close>, and every site in it has
  the two stamps. Or it is the entry of a site of a district of a region, and has the
  region's \<^verbatim>\<open>name\<close> under \<^verbatim>\<open>admin1\<close> and the district's \<^verbatim>\<open>name\<close> under \<^verbatim>\<open>admin2\<close>.
\<close>

theorem ancestor_stamps:
  assumes "get_location_lookup_table U dataset = Inr tbl" and "map_of tbl t = Some e"
  shows "(\<exists>region\<in>set (regions_of dataset).
            entry_of e (snd region) (lit ''admin2'') \<and> stamped_region e)
       \<or> (\<exists>region\<in>set (regions_of dataset).
          \<exists>district\<in>set (child_list (snd region) (lit ''admin2'')).
            entry_of e (snd district) (lit ''unclassified'') \<and> stamped_district (snd region) e)
       \<or> (\<exists>region\<in>set (regions_of dataset).
          \<exists>district\<in>set (child_list (snd region) (lit ''admin2'')).
          \<exists>site\<in>set (child_list (snd district) (lit ''unclassified'')).
            getitem e (lit ''name'') = getitem (snd site) (lit ''name'') \<and>
            stamped_site (snd region) (snd district) e)"
proof -
  from assms(1) obtain regions where r: "items dataset = Inr regions"
    and l: "regions_loop U regions [] = Inr tbl"
    by (auto simp: get_location_lookup_table_def split: sum.splits)
  from r have rs: "regions_of dataset = regions" by (simp add: regions_of_def)
  have written: "district_written (snd region) district"
    if "region \<in> set (regions_of dataset)" "district \<in> set (child_list (snd region) (lit ''admin2''))"
    for region district
    using l that unfolding rs by (rule regions_loop_written)
  have region_case: ?thesis if "e \<in> region_entry ` snd ` set (regions_of dataset)"
  proof -
    from that obtain region where region: "region \<in> set (regions_of dataset)"
      and e: "e = region_entry (snd region)" by blast
    from written[OF region]
    have "\<forall>district\<in>set (child_list (snd region) (lit ''admin2'')). district_written (snd region) district"
      by blast
    from region_entry_stamped[OF this] region show ?thesis unfolding e by blast
  qed
  have district_case: ?thesis if "e \<in> (\<lambda>y. snd (snd y)) ` set (district_entries dataset)"
  proof -
    from that obtain x where "x \<in> set (district_entries dataset)" and ex: "e = snd (snd x)" by blast
    then obtain region district where region: "region \<in> set (regions_of dataset)"
      and district: "district \<in> set (child_list (snd region) (lit ''admin2''))"
      and x: "x = (snd region,
             stamp (lit ''admin1'') (field (snd region) (lit ''name'')) (snd district),
             district_entry (field (snd region) (lit ''name''))
               (stamp (lit ''admin1'') (field (snd region) (lit ''name'')) (snd district)))"
      unfolding in_district_entries by blast
    from written[OF region district] obtain rname
      where rn: "getitem (snd region) (lit ''name'') = Inr rname"
      unfolding district_written_def by blast
    from district_entry_stamped[OF written[OF region district] rn rn]
    have "stamped_district (snd region) e \<and> entry_of e (snd district) (lit ''unclassified'')"
      unfolding ex x snd_conv getitem_field[OF rn] .
    with region district show ?thesis by blast
  qed
  have site_case: ?thesis if "e \<in> (\<lambda>y. snd (snd y)) ` set (site_entries dataset)"
  proof -
    from that obtain x where "x \<in> set (site_entries dataset)" and ex: "e = snd (snd x)" by blast
    then obtain rde site where rde: "rde \<in> set (district_entries dataset)"
      and site: "site \<in> set (child_list (fst (snd rde)) (lit ''unclassified''))"
      and x: "x = (fst rde, fst (snd rde),
             site_entry (field (fst rde) (lit ''name'')) (field (fst (snd rde)) (lit ''name''))
               (snd site))"
      unfolding in_site_entries by blast
    from rde obtain region district where region: "region \<in> set (regions_of dataset)"
      and district: "district \<in> set (child_list (snd region) (lit ''admin2''))"
      and rde': "rde = (snd region,
             stamp (lit ''admin1'') (field (snd region) (lit ''name'')) (snd district),
             district_entry (field (snd region) (lit ''name''))
               (stamp (lit ''admin1'') (field (snd region) (lit ''name'')) (snd district)))"
      unfolding in_district_entries by blast
    from written[OF region district] obtain rname
      where rn: "getitem (snd region) (lit ''name'') = Inr rname"
        and sites: "\<forall>site\<in>set (child_list (stamp (lit ''admin1'') rname (snd district)) (lit ''unclassified'')).
           site_written (snd region) (stamp (lit ''admin1'') rname (snd district)) site"
      unfolding district_written_def by blast
    let ?d = "stamp (lit ''admin1'') rname (snd district)"
    from site have sd: "site \<in> set (child_list ?d (lit ''unclassified''))"
      unfolding rde' fst_conv snd_conv getitem_field[OF rn] .
    with sites have w: "site_written (snd region) ?d site" by blast
    have dn: "getitem ?d (lit ''name'') = getitem (snd district) (lit ''name'')"
      by (simp add: getitem_stamp_other)
    from sd have s': "site \<in> set (child_list (snd district) (lit ''unclassified''))"
      by (simp add: child_list_stamp)
    have e': "e = site_entry (field (snd region) (lit ''name'')) (field ?d (lit ''name'')) (snd site)"
      unfolding ex x rde' fst_conv snd_conv getitem_field[OF rn] ..
    from site_entry_stamped[OF w dn]
    have "stamped_site (snd region) (snd district) e" unfolding e' .
    moreover have "getitem e (lit ''name'') = getitem (snd site) (lit ''name'')"
      unfolding e' by (rule site_entry_name)
    ultimately show ?thesis using region district s' by blast
  qed
  show ?thesis
  proof (cases "map_of (rev (region_tokens U dataset)) t")
    case None
    with table_lookup[OF assms(1), of t] assms(2) have "map_of (insertions U dataset) t = Some e" by simp
    then have "(t, e) \<in> set (insertions U dataset)" by (rule map_of_SomeD)
    then have "e \<in> region_entry ` snd ` set (regions_of dataset) \<or>
          e \<in> (\<lambda>y. snd (snd y)) ` set (district_entries dataset) \<or>
          e \<in> (\<lambda>y. snd (snd y)) ` set (site_entries dataset)"
      by (rule insertions_origin)
    with region_case district_case site_case show ?thesis by blast
  next
    case (Some e')
    with table_lookup[OF assms(1), of t] assms(2) have "e' = e" by simp
    with Some have "map_of (rev (region_tokens U dataset)) t = Some e" by simp
    then have "(t, e) \<in> set (rev (region_tokens U dataset))" by (rule map_of_SomeD)
    then have "e \<in> region_entry ` snd ` set (regions_of dataset)"
      unfolding region_tokens_def region_token_def by force
    then show ?thesis by (rule region_case)
  qed
qed

text \<open>
  The theorem at the collision example, at three tokens. The token \<^verbatim>\<open>a\<close> returns the region
  \<^verbatim>\<open>A\<close>, whose districts \<^verbatim>\<open>X\<close> and \<^verbatim>\<open>Y\<close> and their sites have their stamps; the token \<^verbatim>\<open>y\<close>
  returns the district \<^verbatim>\<open>Y\<close> of region \<^verbatim>\<open>A\<close>, with \<^verbatim>\<open>admin1\<close> \<^verbatim>\<open>A\<close> and a stamped site; the token
  \<^verbatim>\<open>camp\<close> returns the site \<^verbatim>\<open>Camp\<close> of that district, with \<^verbatim>\<open>admin1\<close> \<^verbatim>\<open>A\<close> and \<^verbatim>\<open>admin2\<close> \<^verbatim>\<open>Y\<close>.
\<close>

theorem ancestor_stamps_witness:
  "get_location_lookup_table sample_tables collision_example = Inr collision_table
   \<and> map_of collision_table (lit ''a'') = Some collision_region
   \<and> stamped_region collision_region
   \<and> map_of collision_table (lit ''y'') = Some collision_district_y
   \<and> stamped_district collision_region collision_district_y
   \<and> getitem collision_district_y (lit ''admin1'') = Inr (JStr (lit ''A''))
   \<and> map_of collision_table (lit ''camp'') = Some collision_camp
   \<and> stamped_site collision_region collision_district_y collision_camp
   \<and> getitem collision_camp (lit ''admin1'') = Inr (JStr (lit ''A''))
   \<and> getitem collision_camp (lit ''admin2'') = Inr (JStr (lit ''Y''))"
proof -
  have ma: "map_of collision_table (lit ''a'') = Some collision_region"
    by (simp add: collision_table_def)
  have my: "map_of collision_table (lit ''y'') = Some collision_district_y"
    by (simp add: collision_table_def)
  have mc: "map_of collision_table (lit ''camp'') = Some collision_camp"
    by (simp add: collision_table_def)
  note ta = ancestor_stamps[OF collision_build ma]
  note ty = ancestor_stamps[OF collision_build my]
  note tc = ancestor_stamps[OF collision_build mc]
  have ra: "getitem collision_region (lit ''admin1'') = Inl KeyError"
    by (simp add: collision_region_def)
  from ta have 1: "stamped_region collision_region"
    unfolding stamped_district_def stamped_site_def ra by blast
  have 2: "stamped_district collision_region collision_district_y"
    using ty
    by (simp add: stamped_district_def stamped_site_def child_list_def children_def
          collision_region_def collision_district_y_def collision_camp_def)
  have 3: "stamped_site collision_region collision_district_y collision_camp"
    using tc
    by (simp add: stamped_site_def collision_region_def collision_district_y_def collision_camp_def)
  have 4: "getitem collision_district_y (lit ''admin1'') = Inr (JStr (lit ''A''))"
    by (simp add: collision_district_y_def)
  have 5: "getitem collision_camp (lit ''admin1'') = Inr (JStr (lit ''A''))"
    "getitem collision_camp (lit ''admin2'') = Inr (JStr (lit ''Y''))"
    by (simp_all add: collision_camp_def)
  from collision_build ma 1 my 2 4 mc 3 5 show ?thesis by (intro conjI)
qed

end
